theory Spec2Isabelle
  imports Main "HOL-Library.Word"
begin

section \<open>JavaScript strings\<close>

text \<open>
  A JavaScript string is a sequence of UTF-16 code units; \<open>length\<close>, \<open>slice\<close>,
  \<open>split\<close> and the regular expressions of the sources (none has the \<open>u\<close> flag) all
  count and match code units. A string is therefore a list of 16-bit words. ASCII
  literals of the sources are written \<open>js ''...''\<close>.
\<close>

type_synonym code_unit = "16 word"
type_synonym jstring = "code_unit list"

definition js :: "string \<Rightarrow> jstring" where
  "js s = map of_char s"

abbreviation LF :: code_unit where "LF \<equiv> 0x0A"
abbreviation CR :: code_unit where "CR \<equiv> 0x0D"
abbreviation ESC :: code_unit where "ESC \<equiv> 0x1B"
abbreviation CSI :: code_unit where "CSI \<equiv> 0x9B"

text \<open>The class \<open>\s\<close> of a JavaScript regular expression, which is also what
  \<open>trim\<close>, \<open>trimStart\<close> and \<open>trimEnd\<close> remove: white space and line terminators.\<close>

definition is_space :: "code_unit \<Rightarrow> bool" where
  "is_space c \<longleftrightarrow>
     c = 0x09 \<or> c = 0x0A \<or> c = 0x0B \<or> c = 0x0C \<or> c = 0x0D \<or> c = 0x20 \<or> c = 0xA0
     \<or> c = 0x1680 \<or> (0x2000 \<le> c \<and> c \<le> 0x200A) \<or> c = 0x2028 \<or> c = 0x2029
     \<or> c = 0x202F \<or> c = 0x205F \<or> c = 0x3000 \<or> c = 0xFEFF"

text \<open>The class \<open>.\<close> (no \<open>s\<close> flag): every code unit but the four line terminators.\<close>

definition is_dot :: "code_unit \<Rightarrow> bool" where
  "is_dot c \<longleftrightarrow> c \<noteq> 0x0A \<and> c \<noteq> 0x0D \<and> c \<noteq> 0x2028 \<and> c \<noteq> 0x2029"

definition is_digit :: "code_unit \<Rightarrow> bool" where
  "is_digit c \<longleftrightarrow> 0x30 \<le> c \<and> c \<le> 0x39"

definition trimStart :: "jstring \<Rightarrow> jstring" where
  "trimStart s = dropWhile is_space s"

definition trimEnd :: "jstring \<Rightarrow> jstring" where
  "trimEnd s = rev (dropWhile is_space (rev s))"

definition trim :: "jstring \<Rightarrow> jstring" where
  "trim s = trimEnd (trimStart s)"

definition startsWith :: "jstring \<Rightarrow> jstring \<Rightarrow> bool" where
  "startsWith s p \<longleftrightarrow> take (length p) s = p"

text \<open>\<open>s.indexOf(p)\<close>: the first index at which \<open>p\<close> occurs in \<open>s\<close>, \<open>None\<close> for -1.\<close>

fun indexOf :: "jstring \<Rightarrow> jstring \<Rightarrow> nat option" where
  "indexOf [] p = (if p = [] then Some 0 else None)"
| "indexOf (c # s) p =
     (if startsWith (c # s) p then Some 0 else map_option Suc (indexOf s p))"

text \<open>\<open>parts.join(sep)\<close>.\<close>

fun join :: "jstring \<Rightarrow> jstring list \<Rightarrow> jstring" where
  "join sep [] = []"
| "join sep [p] = p"
| "join sep (p # q # ps) = p @ sep @ join sep (q # ps)"

section \<open>Backtracking matchers\<close>

text \<open>
  A regular expression of the sources is modelled by the backtracking search the
  JavaScript engine performs: a matcher maps the input to the list of the inputs that
  remain after each way it can match, in the order in which backtracking tries them
  (a greedy quantifier tries more repetitions first, a lazy one fewer). The match the
  engine reports is the first entry of the list.
\<close>

text \<open>One code unit of a class.\<close>

fun cls :: "(code_unit \<Rightarrow> bool) \<Rightarrow> jstring \<Rightarrow> jstring list" where
  "cls P [] = []"
| "cls P (c # r) = (if P c then [r] else [])"

text \<open>A literal.\<close>

definition lit :: "jstring \<Rightarrow> jstring \<Rightarrow> jstring list" where
  "lit p s = (if startsWith s p then [drop (length p) s] else [])"

text \<open>\<open>[P]*\<close>, greedy.\<close>

fun star_greedy :: "(code_unit \<Rightarrow> bool) \<Rightarrow> jstring \<Rightarrow> jstring list" where
  "star_greedy P [] = [[]]"
| "star_greedy P (c # r) = (if P c then star_greedy P r else []) @ [c # r]"

text \<open>\<open>[P]{0,n}\<close>, greedy.\<close>

fun upto_greedy :: "nat \<Rightarrow> (code_unit \<Rightarrow> bool) \<Rightarrow> jstring \<Rightarrow> jstring list" where
  "upto_greedy 0 P s = [s]"
| "upto_greedy (Suc n) P [] = [[]]"
| "upto_greedy (Suc n) P (c # r) = (if P c then upto_greedy n P r else []) @ [c # r]"

lemma upto_greedy_length: "r \<in> set (upto_greedy n P s) \<Longrightarrow> length r \<le> length s"
proof (induction n P s arbitrary: r rule: upto_greedy.induct)
  case (3 n P c s)
  then show ?case by (fastforce split: if_splits)
qed auto

section \<open>AnsiNormalizer: \<open>stripAnsi\<close>\<close>

text \<open>
  \<^verbatim>\<open>const ANSI_PATTERN =
  /[\u001B\u009B][[()#;?]*(?:[0-9]{1,4}(?:;[0-9]{0,4})*)?[0-9A-ORZcf-nqry=><]/g;\<close>
\<close>

definition is_intro :: "code_unit \<Rightarrow> bool" where
  "is_intro c \<longleftrightarrow> c = ESC \<or> c = CSI"

text \<open>The class \<open>[[()#;?]\<close>.\<close>

definition is_prefix_char :: "code_unit \<Rightarrow> bool" where
  "is_prefix_char c \<longleftrightarrow>
     c = 0x5B \<or> c = 0x28 \<or> c = 0x29 \<or> c = 0x23 \<or> c = 0x3B \<or> c = 0x3F"

text \<open>The class \<open>[0-9A-ORZcf-nqry=><]\<close>.\<close>

definition is_final :: "code_unit \<Rightarrow> bool" where
  "is_final c \<longleftrightarrow>
     (0x30 \<le> c \<and> c \<le> 0x39) \<or> (0x41 \<le> c \<and> c \<le> 0x4F) \<or> c = 0x52 \<or> c = 0x5A
     \<or> c = 0x63 \<or> (0x66 \<le> c \<and> c \<le> 0x6E) \<or> c = 0x71 \<or> c = 0x72 \<or> c = 0x79
     \<or> c = 0x3D \<or> c = 0x3E \<or> c = 0x3C"

text \<open>\<open>(?:;[0-9]{0,4})*\<close>, greedy.\<close>

function star_semi_digits :: "jstring \<Rightarrow> jstring list" where
  "star_semi_digits [] = [[]]"
| "star_semi_digits (c # r) =
     (if c = 0x3B then concat (map star_semi_digits (upto_greedy 4 is_digit r)) else [])
     @ [c # r]"
  by pat_completeness auto
termination
  by (relation "measure length") (auto dest: upto_greedy_length simp: less_Suc_eq_le)

text \<open>\<open>[0-9]{1,4}(?:;[0-9]{0,4})*\<close>.\<close>

definition ansi_params :: "jstring \<Rightarrow> jstring list" where
  "ansi_params s =
     concat (map star_semi_digits (concat (map (upto_greedy 3 is_digit) (cls is_digit s))))"

text \<open>The whole pattern, tried at the start of the input.\<close>

definition ansi_paths :: "jstring \<Rightarrow> jstring list" where
  "ansi_paths s =
     concat (map (cls is_final)
       (concat (map (\<lambda>r. ansi_params r @ [r])
         (concat (map (star_greedy is_prefix_char) (cls is_intro s))))))"

definition ansi_match :: "jstring \<Rightarrow> jstring option" where
  "ansi_match s = (case ansi_paths s of [] \<Rightarrow> None | r # _ \<Rightarrow> Some r)"

lemma cls_length: "r \<in> set (cls P s) \<Longrightarrow> length r < length s"
  by (cases s) (auto split: if_splits)

lemma star_greedy_length: "r \<in> set (star_greedy P s) \<Longrightarrow> length r \<le> length s"
  by (induction s arbitrary: r) (fastforce split: if_splits)+

lemma star_semi_digits_length:
  "r \<in> set (star_semi_digits s) \<Longrightarrow> length r \<le> length s"
proof (induction s arbitrary: r rule: star_semi_digits.induct)
  case 1
  then show ?case by simp
next
  case (2 c s)
  show ?case
  proof (cases "r = c # s")
    case True
    then show ?thesis by simp
  next
    case False
    with "2.prems" obtain q where c: "c = 0x3B" and q: "q \<in> set (upto_greedy 4 is_digit s)"
      and r: "r \<in> set (star_semi_digits q)"
      by (auto split: if_splits)
    from "2.IH" [OF c q r] upto_greedy_length [OF q] show ?thesis by simp
  qed
qed

lemma ansi_params_length: "r \<in> set (ansi_params s) \<Longrightarrow> length r < length s"
proof -
  assume "r \<in> set (ansi_params s)"
  then obtain a b where a: "a \<in> set (cls is_digit s)"
    and b: "b \<in> set (upto_greedy 3 is_digit a)" and r: "r \<in> set (star_semi_digits b)"
    unfolding ansi_params_def by auto
  from cls_length [OF a] upto_greedy_length [OF b] star_semi_digits_length [OF r]
  show ?thesis by simp
qed

lemma ansi_paths_length: "r \<in> set (ansi_paths s) \<Longrightarrow> length r < length s"
proof -
  assume "r \<in> set (ansi_paths s)"
  then obtain a b c where a: "a \<in> set (cls is_intro s)"
    and b: "b \<in> set (star_greedy is_prefix_char a)"
    and c: "c \<in> set (ansi_params b) \<or> c = b" and r: "r \<in> set (cls is_final c)"
    unfolding ansi_paths_def by auto
  from c have "length c \<le> length b" using ansi_params_length [of c b] by auto
  with cls_length [OF a] star_greedy_length [OF b] cls_length [OF r]
  show ?thesis by simp
qed

lemma ansi_match_length: "ansi_match s = Some r \<Longrightarrow> length r < length s"
  unfolding ansi_match_def
  by (cases "ansi_paths s") (auto intro: ansi_paths_length)

text \<open>
  \<^verbatim>\<open>export function stripAnsi(input: string): string {
    return input.replace(ANSI_PATTERN, "");
  }\<close>
  \<open>replace\<close> with a global pattern scans from the left: where the pattern matches, the
  match is dropped and the scan goes on behind it; elsewhere the code unit is kept.
\<close>

function stripAnsi :: "jstring \<Rightarrow> jstring" where
  "stripAnsi [] = []"
| "stripAnsi (c # r) =
     (case ansi_match (c # r) of Some rest \<Rightarrow> stripAnsi rest | None \<Rightarrow> c # stripAnsi r)"
  by pat_completeness auto
termination
  by (relation "measure length") (auto dest: ansi_match_length)

subsection \<open>The sequences the pattern denotes\<close>

text \<open>
  The pattern read as a set of strings: an introducer (escape or single-shift-control),
  any number of code units of \<open>[[()#;?]\<close>, optionally one to four digits followed by
  any number of groups of a semicolon and up to four digits, and one final code unit.
\<close>

definition semi_group :: "jstring \<Rightarrow> bool" where
  "semi_group g \<longleftrightarrow> (\<exists>e. g = 0x3B # e \<and> (\<forall>c\<in>set e. is_digit c) \<and> length e \<le> 4)"

definition ansi_param_text :: "jstring \<Rightarrow> bool" where
  "ansi_param_text d \<longleftrightarrow>
     (\<exists>h gs. d = h @ concat gs \<and> (\<forall>c\<in>set h. is_digit c) \<and> 1 \<le> length h \<and> length h \<le> 4
        \<and> (\<forall>g\<in>set gs. semi_group g))"

definition ansi_seq :: "jstring \<Rightarrow> bool" where
  "ansi_seq w \<longleftrightarrow>
     (\<exists>i p d f. w = i # p @ d @ [f] \<and> is_intro i \<and> (\<forall>c\<in>set p. is_prefix_char c)
        \<and> (d = [] \<or> ansi_param_text d) \<and> is_final f)"

text \<open>\<open>w\<close> is the longest recognized sequence at the start of \<open>s\<close>.\<close>

definition longest_seq :: "jstring \<Rightarrow> jstring \<Rightarrow> bool" where
  "longest_seq w s \<longleftrightarrow>
     ansi_seq w \<and> (\<exists>r. s = w @ r)
     \<and> (\<forall>w' r'. ansi_seq w' \<and> s = w' @ r' \<longrightarrow> length w' \<le> length w)"

text \<open>
  \<open>strips s out\<close>: \<open>out\<close> is \<open>s\<close> with exactly the recognized sequences removed,
  read from the left: where a recognized sequence starts, the longest one that starts
  there is removed and reading goes on behind it; a code unit at which no recognized
  sequence starts is kept.
\<close>

inductive strips :: "jstring \<Rightarrow> jstring \<Rightarrow> bool" where
  strips_Nil: "strips [] []"
| strips_seq: "longest_seq w (w @ r) \<Longrightarrow> strips r out \<Longrightarrow> strips (w @ r) out"
| strips_keep: "\<not> (\<exists>w r'. ansi_seq w \<and> c # r = w @ r') \<Longrightarrow> strips r out \<Longrightarrow> strips (c # r) (c # out)"

section \<open>PromptAssembler: \<open>promptToText\<close> (prompt.ts)\<close>

text \<open>
  The content blocks of a prompt request, with the fields \<open>promptToText\<close> reads. An
  embedded resource either has a \<open>text\<close> field or has not (it then carries a blob);
  the \<open>uri\<close> of an image is optional. \<open>AudioChunk\<close> stands for the blocks the
  \<open>switch\<close> has no case for.
\<close>

datatype embedded_resource =
    TextResource jstring jstring
  | BlobResource jstring jstring

datatype content_block =
    TextChunk jstring
  | ResourceLinkChunk jstring
  | ResourceChunk embedded_resource
  | ImageChunk "jstring option"
  | AudioChunk

text \<open>The template \<^verbatim>\<open>`\n<context ref="${uri}">\n${text}\n</context>\n`\<close>.\<close>

definition context_block :: "jstring \<Rightarrow> jstring \<Rightarrow> jstring" where
  "context_block uri txt =
     [LF] @ js ''<context ref='' @ [0x22] @ uri @ [0x22] @ js ''>'' @ [LF] @ txt @ [LF]
     @ js ''</context>'' @ [LF]"

text \<open>One round of the \<open>for\<close> loop: \<open>parts\<close> after the \<open>switch\<close> on the chunk. An
  image's \<open>uri\<close> is pushed when it is truthy, that is present and not empty.\<close>

fun push_chunk :: "jstring list \<Rightarrow> content_block \<Rightarrow> jstring list" where
  "push_chunk parts (TextChunk txt) = parts @ [txt]"
| "push_chunk parts (ResourceLinkChunk uri) = parts @ [uri]"
| "push_chunk parts (ResourceChunk (TextResource uri txt)) = parts @ [context_block uri txt]"
| "push_chunk parts (ResourceChunk (BlobResource uri blob)) = parts"
| "push_chunk parts (ImageChunk (Some uri)) = (if uri \<noteq> [] then parts @ [uri] else parts)"
| "push_chunk parts (ImageChunk None) = parts"
| "push_chunk parts AudioChunk = parts"

definition promptToText :: "content_block list \<Rightarrow> jstring" where
  "promptToText prompt = join [] (foldl push_chunk [] prompt)"

text \<open>
  What each chunk contributes, in the words of the description of \<open>promptToText\<close>:
  the text of a text chunk, the uri of a resource link, the context-wrapped text of a
  resource that has text, the uri of an image that has one, and nothing otherwise.
\<close>

fun contribution :: "content_block \<Rightarrow> jstring" where
  "contribution (TextChunk txt) = txt"
| "contribution (ResourceLinkChunk uri) = uri"
| "contribution (ResourceChunk (TextResource uri txt)) = context_block uri txt"
| "contribution (ResourceChunk (BlobResource uri blob)) = []"
| "contribution (ImageChunk (Some uri)) = uri"
| "contribution (ImageChunk None) = []"
| "contribution AudioChunk = []"

text \<open>A resource chunk whose resource lacks a text field, or an image chunk without a uri.\<close>

fun textless :: "content_block \<Rightarrow> bool" where
  "textless (ResourceChunk (BlobResource uri blob)) = True"
| "textless (ImageChunk None) = True"
| "textless _ = False"

section \<open>Line splitting and \<open>processChunk\<close> (kiro.ts)\<close>

text \<open>
  \<open>s.split(/\r\n|\r|\n/)\<close>: the pieces of \<open>s\<close> between line breaks, a carriage return
  followed by a line feed being one break. The first argument is the piece read so far.
  The result always has at least one piece.
\<close>

fun split_newlines :: "jstring \<Rightarrow> jstring \<Rightarrow> jstring list" where
  "split_newlines cur [] = [cur]"
| "split_newlines cur [c] = (if c = CR \<or> c = LF then [cur, []] else [cur @ [c]])"
| "split_newlines cur (c # d # r) =
     (if c = CR \<and> d = LF then cur # split_newlines [] r
      else if c = CR \<or> c = LF then cur # split_newlines [] (d # r)
      else split_newlines (cur @ [c]) (d # r))"

definition split_lines :: "jstring \<Rightarrow> jstring list" where
  "split_lines s = split_newlines [] s"

text \<open>\<open>xs.pop()\<close>: the last element (\<open>None\<close> for \<open>undefined\<close>) and the array without it.\<close>

definition pop :: "'a list \<Rightarrow> 'a option \<times> 'a list" where
  "pop xs = (if xs = [] then (None, []) else (Some (last xs), butlast xs))"

text \<open>\<open>/(\r\n|\r|\n)$/.test(s)\<close>.\<close>

definition endsWithNewline :: "jstring \<Rightarrow> bool" where
  "endsWithNewline s \<longleftrightarrow> s \<noteq> [] \<and> (last s = CR \<or> last s = LF)"

text \<open>
  \<open>processChunk(rawChunk, isFinal, buffer)\<close> returns the texts of the \<open>chunk\<close> events
  it hands to \<open>onEvent\<close>, in order, and the next buffer. The chunk is normalized on
  its own, before it is joined to the buffered partial line.
\<close>

definition processChunk :: "jstring \<Rightarrow> bool \<Rightarrow> jstring \<Rightarrow> jstring list \<times> jstring" where
  "processChunk rawChunk isFinal buffer =
     (let cleaned = stripAnsi rawChunk;
          combined = buffer @ cleaned;
          (popped, parts) = pop (split_lines combined);
          nextBuffer = (if \<not> endsWithNewline combined
                        then (case popped of Some p \<Rightarrow> p | None \<Rightarrow> []) else []);
          emitted = map (\<lambda>line. line @ [LF]) parts
      in if isFinal \<and> nextBuffer \<noteq> [] then (emitted @ [nextBuffer], [])
         else (emitted, nextBuffer))"

section \<open>Sessions and protocol updates (agent.ts)\<close>

text \<open>
  What a handler throws: \<open>new Error(message)\<close>, or
  \<open>RequestError.internalError(undefined, additionalMessage)\<close>, kept with its second
  argument.
\<close>

datatype js_error = Error jstring | InternalError jstring

text \<open>
  The message of the error. \<open>RequestError.internalError\<close> belongs to the protocol SDK,
  which is not among the sources: it builds the message \<open>Internal error\<close>, followed by
  a colon, a space and the additional message when one is given.
\<close>

fun error_message :: "js_error \<Rightarrow> jstring" where
  "error_message (Error message) = message"
| "error_message (InternalError additionalMessage) =
     js ''Internal error''
     @ (if additionalMessage \<noteq> [] then js '': '' @ additionalMessage else [])"

text \<open>\<open>s.includes(part)\<close>.\<close>

definition includes_text :: "jstring \<Rightarrow> jstring \<Rightarrow> bool" where
  "includes_text s part \<longleftrightarrow> indexOf s part \<noteq> None"

record mode_info =
  mode_id :: jstring
  mode_name :: jstring
  mode_description :: "jstring option"

record model_info =
  modelId :: jstring
  model_name :: jstring
  model_description :: "jstring option"

text \<open>
  The \<open>Session\<close> type. \<open>defaultAgentSync\<close> is flattened into \<open>lastAttempt\<close> and
  \<open>lastOk\<close>, \<open>modes\<close> into \<open>currentModeId\<close> and \<open>availableModes\<close>, \<open>models\<close> into
  \<open>currentModelId\<close> and \<open>availableModels\<close>; \<open>child\<close> tells whether a subprocess handle
  is held. The fields \<open>kiroAgent\<close> and \<open>kiroModel\<close> are never written nor read.
\<close>

record session =
  cwd :: jstring
  started :: bool
  cancelled :: bool
  preflightOk :: bool
  kiroDefaultAgent :: "jstring option"
  lastAttempt :: "jstring option"
  lastOk :: "bool option"
  trustAllTools :: bool
  trustTools :: "jstring option"
  wrap :: jstring
  verbose :: bool
  child :: bool
  currentModeId :: jstring
  availableModes :: "mode_info list"
  currentModelId :: jstring
  availableModels :: "model_info list"

datatype tool_kind = Execute | Other

datatype tool_status = InProgress | Completed | Failed

text \<open>
  A tool-call id is \<^verbatim>\<open>`tool-${Date.now()}-${++toolSeq}`\<close>. Two such strings are equal
  exactly when both numbers are, so the id is kept as the pair of the clock reading
  and the sequence number.
\<close>

type_synonym tool_call_id = "int \<times> nat"

text \<open>The type of \<open>activeTool\<close>; its field \<open>output\<close> is \<open>output_lines\<close> here.\<close>

record active_tool =
  tool_id :: tool_call_id
  kind :: tool_kind
  title :: jstring
  rawInput :: jstring
  output_lines :: "jstring list"

text \<open>
  The \<open>update\<close> of a session notification: message and thought chunks with their
  text; \<open>tool_call\<close> with id, title, kind, status and raw input; \<open>tool_call_update\<close>
  with id and the optional status, content text and raw output; \<open>current_mode_update\<close>.
\<close>

datatype session_update =
    AgentMessageChunk jstring
  | AgentThoughtChunk jstring
  | ToolCall tool_call_id jstring tool_kind tool_status jstring
  | ToolCallUpdate tool_call_id "tool_status option" "jstring option" "jstring option"
  | CurrentModeUpdate jstring

section \<open>One turn: the closures of \<open>prompt\<close>\<close>

text \<open>
  The variables the closures of \<open>prompt\<close> share. \<open>sendChain\<close> is the promise chain, kept
  as the list of the updates enqueued on it, oldest first: each link calls
  \<open>client.sessionUpdate\<close> with one update after the links before it have settled, and
  swallows a failure, so the list is also the order in which deliveries are attempted.
\<close>

record turn =
  sess :: session
  sentAny :: bool
  sendChain :: "session_update list"
  toolSeq :: nat
  activeTool :: "active_tool option"
  lineBuffer :: jstring

definition sendUpdate :: "session_update \<Rightarrow> turn \<Rightarrow> turn" where
  "sendUpdate update t =
     (if cancelled (sess t) then t
      else t\<lparr>sentAny := True, sendChain := sendChain t @ [update]\<rparr>)"

definition sendText :: "jstring \<Rightarrow> turn \<Rightarrow> turn" where
  "sendText txt t = sendUpdate (AgentMessageChunk txt) t"

definition sendThought :: "jstring \<Rightarrow> turn \<Rightarrow> turn" where
  "sendThought txt t = sendUpdate (AgentThoughtChunk txt) t"

text \<open>
  \<^verbatim>\<open>/^I will run the following command:\s*(.+?)\s*\(using tool:\s*([^)]+)\)\s*$/\<close>
  with its two captures. The quantifiers that capture return the matched text with the
  rest of the input.
\<close>

text \<open>\<open>[P]*?\<close> (lazy) and \<open>[P]+?\<close>.\<close>

fun star_lazy :: "(code_unit \<Rightarrow> bool) \<Rightarrow> jstring \<Rightarrow> (jstring \<times> jstring) list" where
  "star_lazy P [] = [([], [])]"
| "star_lazy P (c # r) =
     ([], c # r) # (if P c then map (\<lambda>(m, r'). (c # m, r')) (star_lazy P r) else [])"

fun plus_lazy :: "(code_unit \<Rightarrow> bool) \<Rightarrow> jstring \<Rightarrow> (jstring \<times> jstring) list" where
  "plus_lazy P [] = []"
| "plus_lazy P (c # r) = (if P c then map (\<lambda>(m, r'). (c # m, r')) (star_lazy P r) else [])"

text \<open>\<open>[P]*\<close> (greedy) and \<open>[P]+\<close>, capturing.\<close>

fun star_capture :: "(code_unit \<Rightarrow> bool) \<Rightarrow> jstring \<Rightarrow> (jstring \<times> jstring) list" where
  "star_capture P [] = [([], [])]"
| "star_capture P (c # r) =
     (if P c then map (\<lambda>(m, r'). (c # m, r')) (star_capture P r) else []) @ [([], c # r)]"

fun plus_capture :: "(code_unit \<Rightarrow> bool) \<Rightarrow> jstring \<Rightarrow> (jstring \<times> jstring) list" where
  "plus_capture P [] = []"
| "plus_capture P (c # r) =
     (if P c then map (\<lambda>(m, r'). (c # m, r')) (star_capture P r) else [])"

definition toolStartRe_paths :: "jstring \<Rightarrow> (jstring \<times> jstring) list" where
  "toolStartRe_paths line =
     [(command, toolName).
        r0 \<leftarrow> lit (js ''I will run the following command:'') line,
        r1 \<leftarrow> star_greedy is_space r0,
        (command, r2) \<leftarrow> plus_lazy is_dot r1,
        r3 \<leftarrow> star_greedy is_space r2,
        r4 \<leftarrow> lit (js ''(using tool:'') r3,
        r5 \<leftarrow> star_greedy is_space r4,
        (toolName, r6) \<leftarrow> plus_capture (\<lambda>c. c \<noteq> 0x29) r5,
        r7 \<leftarrow> lit (js '')'') r6,
        r8 \<leftarrow> star_greedy is_space r7,
        r8 = []]"

text \<open>\<open>line.match(toolStartRe)\<close>: the captures of the first way to match, if any.\<close>

definition toolStartRe :: "jstring \<Rightarrow> (jstring \<times> jstring) option" where
  "toolStartRe line = (case toolStartRe_paths line of [] \<Rightarrow> None | m # _ \<Rightarrow> Some m)"

text \<open>\<open>toolDoneRe.test(line)\<close> for \<open>/- Completed in /\<close>.\<close>

definition toolDoneRe :: "jstring \<Rightarrow> bool" where
  "toolDoneRe line \<longleftrightarrow> indexOf line (js ''- Completed in '') \<noteq> None"

definition thoughtPrefixes :: "jstring list" where
  "thoughtPrefixes =
     [js ''Thought:'', js ''Reasoning:'', js ''Chain of Thought:'', js ''Chain-of-thought:'',
      js ''Scratchpad:'']"

text \<open>The text both \<open>toolContent()\<close> and \<open>rawOutput\<close> carry: absent while there is no
  output, the output lines joined by line feeds otherwise.\<close>

definition toolContent :: "active_tool \<Rightarrow> jstring option" where
  "toolContent tool =
     (if output_lines tool = [] then None else Some (join [LF] (output_lines tool)))"

definition sendToolCall :: "turn \<Rightarrow> turn" where
  "sendToolCall t =
     (case activeTool t of
        None \<Rightarrow> t
      | Some tool \<Rightarrow>
          sendUpdate (ToolCall (tool_id tool) (title tool) (kind tool) InProgress (rawInput tool)) t)"

definition sendToolUpdate :: "tool_status option \<Rightarrow> turn \<Rightarrow> turn" where
  "sendToolUpdate status t =
     (case activeTool t of
        None \<Rightarrow> t
      | Some tool \<Rightarrow>
          sendUpdate (ToolCallUpdate (tool_id tool) status (toolContent tool) (toolContent tool)) t)"

text \<open>
  \<open>handleLine\<close>. \<open>now k\<close> is what \<open>Date.now()\<close> returns when the tool call with sequence
  number \<open>k\<close> is created.
\<close>

definition handleLine :: "(nat \<Rightarrow> int) \<Rightarrow> jstring \<Rightarrow> turn \<Rightarrow> turn" where
  "handleLine now line t =
     (case toolStartRe line of
        Some (g1, g2) \<Rightarrow>
          (let t1 = (if activeTool t \<noteq> None then sendToolUpdate (Some Completed) t else t);
               command = trim g1;
               toolName = trim g2;
               n = Suc (toolSeq t1);
               tool = \<lparr>tool_id = (now n, n),
                       kind = (if toolName = js ''shell'' then Execute else Other),
                       title = (if toolName \<noteq> [] then toolName @ js '': '' @ command else command),
                       rawInput = command,
                       output_lines = []\<rparr>
           in sendToolCall (t1\<lparr>toolSeq := n, activeTool := Some tool\<rparr>))
      | None \<Rightarrow>
          (case activeTool t of
             Some tool \<Rightarrow>
               if toolDoneRe line then (sendToolUpdate (Some Completed) t)\<lparr>activeTool := None\<rparr>
               else sendToolUpdate (Some InProgress)
                      (t\<lparr>activeTool := Some (tool\<lparr>output_lines := output_lines tool @ [line]\<rparr>)\<rparr>)
           | None \<Rightarrow>
               if \<exists>prefix\<in>set thoughtPrefixes. startsWith line prefix
               then sendThought (line @ [LF]) t
               else sendText (line @ [LF]) t))"

definition handleChunk :: "(nat \<Rightarrow> int) \<Rightarrow> jstring \<Rightarrow> turn \<Rightarrow> turn" where
  "handleChunk now txt t =
     (let (popped, parts) = pop (split_lines (lineBuffer t @ txt));
          t1 = t\<lparr>lineBuffer := (case popped of Some p \<Rightarrow> p | None \<Rightarrow> [])\<rparr>
      in foldl (\<lambda>t part. handleLine now part t) t1 parts)"

section \<open>\<open>runKiroChat\<close> and \<open>prompt\<close>\<close>

text \<open>
  What reaches the process while \<open>prompt\<close> waits for the subprocess to close: data on
  the subprocess's standard output or standard error, or a \<open>cancel\<close> notification for
  the session.
\<close>

datatype turn_event = StdoutData jstring | StderrData jstring | CancelNotification

text \<open>The buffers of \<open>runKiroChat\<close>. (\<open>rawStdout\<close> only travels in the \<open>exit\<close> event,
  which the agent does not read.)\<close>

record chat =
  stdoutBuffer :: jstring
  stderrBuffer :: jstring

text \<open>The agent's \<open>onEvent\<close>, applied to the \<open>chunk\<close> events of one \<open>processChunk\<close>.\<close>

definition onChunks :: "(nat \<Rightarrow> int) \<Rightarrow> jstring list \<Rightarrow> turn \<Rightarrow> turn" where
  "onChunks now texts t = foldl (\<lambda>t txt. handleChunk now txt t) t texts"

text \<open>\<open>cancel\<close> on a session: the flag is set; the signal sent to the subprocess
  shows in what the subprocess does next, which is input here.\<close>

definition cancel_session :: "session \<Rightarrow> session" where
  "cancel_session s = s\<lparr>cancelled := True\<rparr>"

fun turn_step :: "(nat \<Rightarrow> int) \<Rightarrow> chat \<times> turn \<Rightarrow> turn_event \<Rightarrow> chat \<times> turn" where
  "turn_step now (c, t) (StdoutData d) =
     (let (texts, b) = processChunk d False (stdoutBuffer c)
      in (c\<lparr>stdoutBuffer := b\<rparr>, onChunks now texts t))"
| "turn_step now (c, t) (StderrData d) =
     (let (texts, b) = processChunk d False (stderrBuffer c)
      in (c\<lparr>stderrBuffer := b\<rparr>, onChunks now texts t))"
| "turn_step now (c, t) CancelNotification = (c, t\<lparr>sess := cancel_session (sess t)\<rparr>)"

text \<open>The \<open>close\<close> handler of \<open>runKiroChat\<close>: both buffers are flushed.\<close>

definition on_close :: "(nat \<Rightarrow> int) \<Rightarrow> chat \<times> turn \<Rightarrow> chat \<times> turn" where
  "on_close now ct =
     (let (c, t) = ct;
          (texts1, b1) = processChunk [] True (stdoutBuffer c);
          t1 = onChunks now texts1 t;
          (texts2, b2) = processChunk [] True (stderrBuffer c);
          t2 = onChunks now texts2 t1
      in (c\<lparr>stdoutBuffer := b1, stderrBuffer := b2\<rparr>, t2))"

text \<open>\<open>String(n)\<close> for an integer.\<close>

fun show_nat :: "nat \<Rightarrow> jstring" where
  "show_nat n = (if n < 10 then [of_nat (48 + n)] else show_nat (n div 10) @ [of_nat (48 + n mod 10)])"

declare show_nat.simps [simp del]

definition show_int :: "int \<Rightarrow> jstring" where
  "show_int i = (if i < 0 then 0x2D # show_nat (nat (- i)) else show_nat (nat i))"

text \<open>\<^verbatim>\<open>${exit.code ?? "?"}\<close>.\<close>

definition show_code :: "int option \<Rightarrow> jstring" where
  "show_code code = (case code of None \<Rightarrow> js ''?'' | Some n \<Rightarrow> show_int n)"

text \<open>The notice template: a line feed, \<open>(kiro-cli\<close>, a space, the three ideographs
  U+9000, U+51FA and U+7801, a colon, a space, the exit code or \<open>?\<close>, a closing
  parenthesis and a line feed.\<close>

definition exit_notice :: "int option \<Rightarrow> jstring" where
  "exit_notice code =
     [LF] @ js ''(kiro-cli '' @ [0x9000, 0x51FA, 0x7801] @ js '': '' @ show_code code @ js '')''
     @ [LF]"

text \<open>
  \<open>syncKiroDefaultAgent\<close>; \<open>zed\<close> is what \<open>zedDefaultMode\<close> returns and \<open>code\<close> the
  exit code of \<open>kiro-cli agent set-default\<close> (absent when it could not be spawned).
\<close>

definition syncKiroDefaultAgent :: "jstring option \<Rightarrow> int option \<Rightarrow> session \<Rightarrow> session" where
  "syncKiroDefaultAgent zed code s =
     (case zed of
        None \<Rightarrow> s
      | Some desired \<Rightarrow>
          if desired = [] \<or> desired = js ''default'' then s
          else if lastAttempt s = Some desired \<and> lastOk s = Some False then s
          else if kiroDefaultAgent s = Some desired then s
          else (let ok = (code = Some 0);
                    s1 = s\<lparr>lastAttempt := Some desired, lastOk := Some ok\<rparr>
                in if ok then s1\<lparr>kiroDefaultAgent := Some desired\<rparr> else s1))"

text \<open>The result of \<open>ensureKiroReady\<close>.\<close>

datatype readiness = Ready | NotReady jstring

datatype stop_reason = EndTurn | Cancelled

text \<open>
  Everything outside the agent that one call of \<open>prompt\<close> depends on: whether a
  \<open>cancel\<close> arrives while the capability check or the default-agent synchronization is
  awaited; the outcome of the capability check; the host's default mode and the exit
  code of the synchronization call; the clock; what arrives while the subprocess runs;
  whether a \<open>cancel\<close> arrives while the send chain is awaited; whether one arrives
  while the exit notice is awaited; the exit code (absent when the subprocess was ended
  by a signal).
\<close>

record world =
  cancel_in_preflight :: bool
  ready :: readiness
  zedDefault :: "jstring option"
  setDefaultCode :: "int option"
  clock :: "nat \<Rightarrow> int"
  events :: "turn_event list"
  cancel_in_drain :: bool
  cancel_in_notice :: bool
  exit_code :: "int option"

text \<open>
  \<open>prompt\<close> for a session that exists, in four parts. First the cancellation flag is
  cleared (a \<open>cancel\<close> that arrives during the awaits before the launch sets it
  again).
\<close>

definition entry_session :: "world \<Rightarrow> session \<Rightarrow> session" where
  "entry_session w s =
     (let s1 = s\<lparr>cancelled := False\<rparr> in if cancel_in_preflight w then cancel_session s1 else s1)"

text \<open>The state when the subprocess has been launched: the capability check has
  passed, the default agent has been synchronized, the handle is stored, and the
  variables of the turn are fresh.\<close>

definition start_turn :: "world \<Rightarrow> session \<Rightarrow> chat \<times> turn" where
  "start_turn w s =
     (\<lparr>stdoutBuffer = [], stderrBuffer = []\<rparr>,
      \<lparr>sess = (syncKiroDefaultAgent (zedDefault w) (setDefaultCode w)
                 (s\<lparr>preflightOk := True\<rparr>))\<lparr>child := True\<rparr>,
       sentAny = False, sendChain = [], toolSeq = 0, activeTool = None, lineBuffer = []\<rparr>)"

text \<open>The turn when the events \<open>evs\<close> have been handled.\<close>

definition turn_after :: "world \<Rightarrow> session \<Rightarrow> turn_event list \<Rightarrow> chat \<times> turn" where
  "turn_after w s evs = foldl (turn_step (clock w)) (start_turn w (entry_session w s)) evs"

text \<open>Behind the subprocess's \<open>close\<close>: the handle is dropped and the partial line,
  if there is one, is handled.\<close>

definition flush_line :: "world \<Rightarrow> turn \<Rightarrow> turn" where
  "flush_line w t0 =
     (let t1 = t0\<lparr>sess := (sess t0)\<lparr>child := False\<rparr>\<rparr>
      in if lineBuffer t1 \<noteq> []
         then (handleLine (clock w) (lineBuffer t1) t1)\<lparr>lineBuffer := []\<rparr>
         else t1)"

text \<open>Then an open tool call is closed with the status the exit code gives.\<close>

definition close_tool :: "world \<Rightarrow> turn \<Rightarrow> turn" where
  "close_tool w t2 =
     (if activeTool t2 \<noteq> None
      then (sendToolUpdate (Some (if exit_code w = Some 0 then Completed else Failed)) t2)
             \<lparr>activeTool := None\<rparr>
      else t2)"

text \<open>
  The send chain is awaited (a \<open>cancel\<close> may arrive meanwhile) and the stop reason is
  chosen. When the exit notice is sent it is awaited too, and a \<open>cancel\<close> that arrives
  then finds the stop reason chosen. The result is the response or the error thrown,
  with the session and the updates enqueued on the send chain.
\<close>

definition finish_turn ::
  "world \<Rightarrow> turn \<Rightarrow> (js_error + stop_reason) \<times> session \<times> session_update list" where
  "finish_turn w t3 =
     (let t4 = (if cancel_in_drain w then t3\<lparr>sess := cancel_session (sess t3)\<rparr> else t3)
      in if cancelled (sess t4) then (Inr Cancelled, sess t4, sendChain t4)
         else if \<not> sentAny t4 \<and> exit_code w \<noteq> Some 0
         then (Inl (InternalError (js ''kiro-cli exited with code '' @ show_code (exit_code w))),
               sess t4, sendChain t4)
         else (let t5 = (if exit_code w \<noteq> Some 0
                         then (let t = sendText (exit_notice (exit_code w)) t4
                               in if cancel_in_notice w
                                  then t\<lparr>sess := cancel_session (sess t)\<rparr> else t)
                         else t4)
               in (Inr EndTurn, (sess t5)\<lparr>started := True\<rparr>, sendChain t5)))"

text \<open>The turn when the subprocess has closed and the open ends are tied.\<close>

definition flushed_turn :: "world \<Rightarrow> session \<Rightarrow> turn" where
  "flushed_turn w s = flush_line w (snd (on_close (clock w) (turn_after w s (events w))))"

definition closed_turn :: "world \<Rightarrow> session \<Rightarrow> turn" where
  "closed_turn w s = close_tool w (flushed_turn w s)"

definition prompt_session ::
  "world \<Rightarrow> content_block list \<Rightarrow> session
     \<Rightarrow> (js_error + stop_reason) \<times> session \<times> session_update list" where
  "prompt_session w params s =
     (let s2 = entry_session w s
      in case (if preflightOk s2 then Ready else ready w) of
           NotReady message \<Rightarrow>
             (let t = sendText message
                        \<lparr>sess = s2, sentAny = False, sendChain = [], toolSeq = 0,
                         activeTool = None, lineBuffer = []\<rparr>
              in (Inr EndTurn, sess t, sendChain t))
         | Ready \<Rightarrow> finish_turn w (closed_turn w s))"

text \<open>The subprocess is launched in this call of \<open>prompt\<close>: the capability check
  passed in an earlier turn or passes now.\<close>

definition launched :: "world \<Rightarrow> session \<Rightarrow> bool" where
  "launched w s \<longleftrightarrow> preflightOk s \<or> ready w = Ready"

section \<open>SessionRegistry and the protocol handlers\<close>

text \<open>
  The agent object: the registry \<open>sessions\<close>, and the \<open>sessionUpdate\<close> calls made on
  the client connection so far, each with its session id.
\<close>

record agent =
  sessions :: "jstring \<rightharpoonup> session"
  client :: "(jstring \<times> session_update) list"

definition prompt ::
  "world \<Rightarrow> jstring \<Rightarrow> content_block list \<Rightarrow> agent \<Rightarrow> (js_error + stop_reason) \<times> agent" where
  "prompt w sessionId params a =
     (case sessions a sessionId of
        None \<Rightarrow> (Inl (Error (js ''Session not found'')), a)
      | Some s \<Rightarrow>
          (let (res, s', updates) = prompt_session w params s
           in (res, a\<lparr>sessions := (sessions a)(sessionId \<mapsto> s'),
                      client := client a @ map (Pair sessionId) updates\<rparr>)))"


text \<open>
  \<open>setSessionMode\<close>. \<open>zed\<close> and \<open>code\<close> are as for \<open>syncKiroDefaultAgent\<close>, whose effect
  on the session (it is started and not awaited) is taken as done when the handler
  returns; \<open>notify\<close> is the error with which the awaited \<open>sessionUpdate\<close> rejects, if it does.
\<close>

definition setSessionMode ::
  "jstring option \<Rightarrow> int option \<Rightarrow> js_error option \<Rightarrow> jstring \<Rightarrow> jstring \<Rightarrow> agent
     \<Rightarrow> (js_error + unit) \<times> agent" where
  "setSessionMode zed code notify sessionId modeId a =
     (case sessions a sessionId of
        None \<Rightarrow> (Inl (Error (js ''Session not found'')), a)
      | Some s \<Rightarrow>
          if \<not> (\<exists>m\<in>set (availableModes s). mode_id m = modeId)
          then (Inl (Error (js ''Invalid mode'')), a)
          else (let s1 = s\<lparr>currentModeId := modeId\<rparr>;
                    s2 = (if zed = Some modeId \<and> kiroDefaultAgent s1 \<noteq> Some modeId
                          then syncKiroDefaultAgent zed code s1 else s1);
                    a' = a\<lparr>sessions := (sessions a)(sessionId \<mapsto> s2),
                           client := client a @ [(sessionId, CurrentModeUpdate modeId)]\<rparr>
                in (case notify of Some e \<Rightarrow> Inl e | None \<Rightarrow> Inr (), a')))"

definition setSessionModel :: "jstring \<Rightarrow> jstring \<Rightarrow> agent \<Rightarrow> (js_error + unit) \<times> agent" where
  "setSessionModel sessionId model a =
     (case sessions a sessionId of
        None \<Rightarrow> (Inl (Error (js ''Session not found'')), a)
      | Some s \<Rightarrow>
          if \<not> (\<exists>m\<in>set (availableModels s). modelId m = model)
          then (Inl (Error (js ''Invalid model'')), a)
          else (Inr (), a\<lparr>sessions := (sessions a)(sessionId \<mapsto> s\<lparr>currentModelId := model\<rparr>)\<rparr>))"

text \<open>\<open>envString\<close> and \<open>envBool\<close> over \<open>process.env\<close>.\<close>

definition envString :: "(jstring \<rightharpoonup> jstring) \<Rightarrow> jstring \<Rightarrow> jstring option" where
  "envString env name = (case env name of None \<Rightarrow> None | Some v \<Rightarrow> if v \<noteq> [] then Some v else None)"

text \<open>\<open>toLowerCase\<close> on the letters A to Z; no other code unit lower-cases to a letter
  of \<open>true\<close> or \<open>yes\<close>, which is all \<open>envBool\<close> compares with.\<close>

definition toLowerCase :: "jstring \<Rightarrow> jstring" where
  "toLowerCase s = map (\<lambda>c. if 0x41 \<le> c \<and> c \<le> 0x5A then c + 0x20 else c) s"

definition envBool :: "(jstring \<rightharpoonup> jstring) \<Rightarrow> jstring \<Rightarrow> bool" where
  "envBool env name =
     (case env name of
        None \<Rightarrow> False
      | Some v \<Rightarrow> v \<noteq> [] \<and> (v = js ''1'' \<or> toLowerCase v = js ''true'' \<or> toLowerCase v = js ''yes''))"

text \<open>
  The mode \<open>newSession\<close> starts with: \<open>KIRO_ACP_AGENT\<close> unless it is unset or
  \<open>default\<close>, else the host's default mode, else the default of the agent list, else
  the first listed agent, else \<open>default\<close>.
\<close>

definition preferredMode ::
  "(jstring \<rightharpoonup> jstring) \<Rightarrow> mode_info list \<Rightarrow> jstring option \<Rightarrow> jstring option \<Rightarrow> jstring" where
  "preferredMode env agents defaultAgent zed =
     (let fallback =
            (case zed of
               Some z \<Rightarrow> z
             | None \<Rightarrow>
                 (case defaultAgent of
                    Some d \<Rightarrow> d
                  | None \<Rightarrow> (case agents of m # _ \<Rightarrow> mode_id m | [] \<Rightarrow> js ''default'')))
      in case envString env (js ''KIRO_ACP_AGENT'') of
           Some requested \<Rightarrow> if requested \<noteq> js ''default'' then requested else fallback
         | None \<Rightarrow> fallback)"

definition availableModels0 :: "model_info list" where
  "availableModels0 =
     [\<lparr>modelId = js ''auto'', model_name = js ''Auto'',
       model_description = Some (js ''Models chosen by task for optimal usage and consistent quality'')\<rparr>,
      \<lparr>modelId = js ''claude-sonnet-4.5'', model_name = js ''Claude Sonnet 4.5'',
       model_description = Some (js ''The latest Claude Sonnet model'')\<rparr>,
      \<lparr>modelId = js ''claude-sonnet-4'', model_name = js ''Claude Sonnet 4'',
       model_description = Some (js ''Hybrid reasoning and coding for regular use'')\<rparr>,
      \<lparr>modelId = js ''claude-haiku-4.5'', model_name = js ''Claude Haiku 4.5'',
       model_description = Some (js ''The latest Claude Haiku model'')\<rparr>,
      \<lparr>modelId = js ''claude-opus-4.5'', model_name = js ''Claude Opus 4.5'',
       model_description = Some (js ''The latest Claude Opus model'')\<rparr>]"

text \<open>
  \<open>newSession\<close>. \<open>sessionId\<close> is the fresh UUID, \<open>env\<close> is \<open>process.env\<close>, \<open>agents\<close>
  and \<open>defaultAgent\<close> are what \<open>listKiroAgents\<close> returns and \<open>zed\<close> what
  \<open>zedDefaultMode\<close> returns. The response carries the id, the modes and the models,
  which are those of the stored session.
\<close>

definition newSession ::
  "jstring \<Rightarrow> (jstring \<rightharpoonup> jstring) \<Rightarrow> mode_info list \<Rightarrow> jstring option \<Rightarrow> jstring option
     \<Rightarrow> jstring \<Rightarrow> agent \<Rightarrow> (jstring \<times> session) \<times> agent" where
  "newSession sessionId env agents defaultAgent zed dir a =
     (let preferred = preferredMode env agents defaultAgent zed;
          modes0 = (if agents \<noteq> [] then agents
                    else [\<lparr>mode_id = js ''default'', mode_name = js ''default'',
                            mode_description = None\<rparr>]);
          modes = (if preferred \<noteq> [] \<and> preferred \<noteq> js ''default''
                      \<and> \<not> (\<exists>m\<in>set modes0. mode_id m = preferred)
                   then modes0 @ [\<lparr>mode_id = preferred, mode_name = preferred,
                                    mode_description = Some (js ''From settings'')\<rparr>]
                   else modes0);
          model = (case envString env (js ''KIRO_ACP_MODEL'') of Some m \<Rightarrow> m | None \<Rightarrow> js ''auto'');
          s = \<lparr>cwd = dir, started = False, cancelled = False, preflightOk = False,
               kiroDefaultAgent = defaultAgent, lastAttempt = None, lastOk = None,
               trustAllTools = envBool env (js ''KIRO_ACP_TRUST_ALL_TOOLS''),
               trustTools = envString env (js ''KIRO_ACP_TRUST_TOOLS''),
               wrap = (case envString env (js ''KIRO_ACP_WRAP'') of Some v \<Rightarrow> v | None \<Rightarrow> js ''auto''),
               verbose = (case envString env (js ''KIRO_ACP_VERBOSE'') of
                            Some v \<Rightarrow> envBool env (js ''KIRO_ACP_VERBOSE'') | None \<Rightarrow> True),
               child = False,
               currentModeId = preferred, availableModes = modes,
               currentModelId = model, availableModels = availableModels0\<rparr>
      in ((sessionId, s), a\<lparr>sessions := (sessions a)(sessionId \<mapsto> s)\<rparr>))"

section \<open>The ChunkBuffer variant: \<open>processStdout\<close>\<close>

text \<open>
  The variant of \<open>runKiroChat\<close> that holds back a trailing window of the raw output and
  forwards what follows the prompt marker \<^verbatim>\<open>"> "\<close>.
\<close>

definition CARRY_BYTES :: nat where
  "CARRY_BYTES = 64"

record stdout_state =
  rawStdout :: jstring
  rawCarry :: jstring
  cleanStdout :: jstring
  emitting :: bool
  emitCleanIndex :: nat

text \<open>The position of the marker in the normalized text: at its start, or behind the
  first line feed that the marker follows.\<close>

definition markerPos :: "jstring \<Rightarrow> nat option" where
  "markerPos clean =
     (if startsWith clean (js ''> '') then Some 0
      else map_option Suc (indexOf clean ([LF] @ js ''> '')))"

text \<open>\<open>processStdout(rawChunk, isFinal)\<close>, with the texts of the \<open>chunk\<close> events it
  emits. \<open>Math.max(0, n - CARRY_BYTES)\<close> is the subtraction of natural numbers.\<close>

definition processStdout :: "jstring \<Rightarrow> bool \<Rightarrow> stdout_state \<Rightarrow> jstring list \<times> stdout_state" where
  "processStdout rawChunk isFinal st =
     (let st1 = st\<lparr>rawStdout := rawStdout st @ rawChunk, rawCarry := rawCarry st @ rawChunk\<rparr>;
          processUpto = (if isFinal then length (rawCarry st1)
                         else length (rawCarry st1) - CARRY_BYTES);
          rawToProcess = take processUpto (rawCarry st1);
          st2 = st1\<lparr>rawCarry := drop processUpto (rawCarry st1)\<rparr>
      in if rawToProcess = [] then ([], st2)
         else (let st3 = st2\<lparr>cleanStdout := cleanStdout st2 @ stripAnsi rawToProcess\<rparr>;
                   st4 = (if \<not> emitting st3
                          then (case markerPos (cleanStdout st3) of
                                  Some pos \<Rightarrow> st3\<lparr>emitting := True, emitCleanIndex := pos + 2\<rparr>
                                | None \<Rightarrow> st3)
                          else st3)
               in if emitting st4
                  then (let next = drop (emitCleanIndex st4) (cleanStdout st4);
                            st5 = st4\<lparr>emitCleanIndex := length (cleanStdout st4)\<rparr>
                        in (if next \<noteq> [] then [next] else [], st5))
                  else ([], st4)))"

text \<open>The \<open>data\<close> handler for each delivery, then the \<open>close\<close> handler: all the
  \<open>chunk\<close> texts emitted, in order.\<close>

fun stdout_deliveries :: "jstring list \<Rightarrow> stdout_state \<Rightarrow> jstring list \<times> stdout_state" where
  "stdout_deliveries [] st = ([], st)"
| "stdout_deliveries (d # ds) st =
     (let (out1, st1) = processStdout d False st;
          (out2, st2) = stdout_deliveries ds st1
      in (out1 @ out2, st2))"

definition stdout_close :: "stdout_state \<Rightarrow> jstring list" where
  "stdout_close st =
     (let (out1, st1) = processStdout [] True st;
          cleaned = trimEnd (cleanStdout st1)
      in out1 @ (if \<not> emitting st1 \<and> trim cleaned \<noteq> [] then [cleaned] else []))"

definition stdout_chunks :: "jstring list \<Rightarrow> jstring list" where
  "stdout_chunks deliveries =
     (let (out, st) = stdout_deliveries deliveries
            \<lparr>rawStdout = [], rawCarry = [], cleanStdout = [], emitting = False, emitCleanIndex = 0\<rparr>
      in out @ stdout_close st)"

section \<open>A session and a world for concrete runs\<close>

text \<open>A session whose capability check has passed, and a world without cancellation in
  which the subprocess delivers \<open>evs\<close> and exits with \<open>code\<close>.\<close>

definition example_session :: session where
  "example_session =
     \<lparr>cwd = js ''/work'', started = False, cancelled = False, preflightOk = True,
      kiroDefaultAgent = None, lastAttempt = None, lastOk = None, trustAllTools = False,
      trustTools = None, wrap = js ''auto'', verbose = True, child = False,
      currentModeId = js ''default'',
      availableModes =
        [\<lparr>mode_id = js ''default'', mode_name = js ''default'', mode_description = None\<rparr>],
      currentModelId = js ''auto'', availableModels = availableModels0\<rparr>"

definition example_world :: "turn_event list \<Rightarrow> int option \<Rightarrow> world" where
  "example_world evs code =
     \<lparr>cancel_in_preflight = False, ready = Ready, zedDefault = None, setDefaultCode = None,
      clock = (\<lambda>k. 1700000000000), events = evs, cancel_in_drain = False,
      cancel_in_notice = False, exit_code = code\<rparr>"

text \<open>The lines of the tool-call scenario.\<close>

definition line_tool_start :: jstring where
  "line_tool_start = js ''I will run the following command: ls (using tool: shell)''"

definition line_output :: jstring where
  "line_output = js ''file.txt''"

definition line_completed :: jstring where
  "line_completed = js ''- Completed in 0.1s''"

definition line_prose :: jstring where
  "line_prose = js ''Done.''"

definition scenario_events :: "turn_event list" where
  "scenario_events =
     [StdoutData (line_tool_start @ [LF]), StdoutData (line_output @ [LF]),
      StdoutData (line_completed @ [LF]), StdoutData (line_prose @ [LF])]"

text \<open>An agent that holds the example session under the id \<open>s1\<close>.\<close>

definition example_agent :: agent where
  "example_agent = \<lparr>sessions = [js ''s1'' \<mapsto> example_session], client = []\<rparr>"

text \<open>A turn that is cancelled after its first line.\<close>

definition cancel_events_before :: "turn_event list" where
  "cancel_events_before = [StdoutData (js ''hello'' @ [LF])]"

definition cancel_events_after :: "turn_event list" where
  "cancel_events_after = [StdoutData (js ''more'' @ [LF]), StdoutData (line_tool_start @ [LF])]"

definition cancel_world :: world where
  "cancel_world = example_world (cancel_events_before @ CancelNotification # cancel_events_after) None"


text \<open>A turn in which one tool call completes and a second one is open when the cancel
  arrives.\<close>

definition two_tools_before :: "turn_event list" where
  "two_tools_before =
     [StdoutData (line_tool_start @ [LF]), StdoutData (line_completed @ [LF]),
      StdoutData (line_tool_start @ [LF])]"

definition two_tools_world :: world where
  "two_tools_world =
     example_world (two_tools_before @ CancelNotification # [StdoutData (line_completed @ [LF])])
       None"

section \<open>Reading a sequence of updates\<close>

text \<open>The tool-call id an update carries, if it is a tool-call update or start.\<close>

fun update_id :: "session_update \<Rightarrow> tool_call_id option" where
  "update_id (ToolCall i ti k st raw) = Some i"
| "update_id (ToolCallUpdate i st content raw) = Some i"
| "update_id _ = None"

text \<open>An update that carries a terminal status, \<open>completed\<close> or \<open>failed\<close>.\<close>

fun is_terminal :: "session_update \<Rightarrow> bool" where
  "is_terminal (ToolCall i ti k st raw) = (st = Completed \<or> st = Failed)"
| "is_terminal (ToolCallUpdate i st content raw) = (st = Some Completed \<or> st = Some Failed)"
| "is_terminal _ = False"

fun is_tool_call :: "session_update \<Rightarrow> bool" where
  "is_tool_call (ToolCall i ti k st raw) = True"
| "is_tool_call _ = False"

text \<open>The updates of a sequence that carry the id \<open>i\<close>, in order.\<close>

definition updates_of :: "tool_call_id \<Rightarrow> session_update list \<Rightarrow> session_update list" where
  "updates_of i chain = filter (\<lambda>u. update_id u = Some i) chain"

text \<open>The tool call \<open>i\<close> was opened: its \<open>tool_call\<close> start is in the sequence.\<close>

definition opened :: "tool_call_id \<Rightarrow> session_update list \<Rightarrow> bool" where
  "opened i chain \<longleftrightarrow> (\<exists>u\<in>set chain. is_tool_call u \<and> update_id u = Some i)"

text \<open>No update with the id \<open>i\<close> follows a terminal update with the id \<open>i\<close>: only the
  last update of \<open>i\<close> can be terminal.\<close>

definition nothing_after_terminal :: "tool_call_id \<Rightarrow> session_update list \<Rightarrow> bool" where
  "nothing_after_terminal i chain \<longleftrightarrow> \<not> (\<exists>u\<in>set (butlast (updates_of i chain)). is_terminal u)"

text \<open>Exactly one terminal update with the id \<open>i\<close>, and it is the last update of \<open>i\<close>.\<close>

definition closed_once :: "tool_call_id \<Rightarrow> session_update list \<Rightarrow> bool" where
  "closed_once i chain \<longleftrightarrow>
     updates_of i chain \<noteq> [] \<and> is_terminal (last (updates_of i chain))
     \<and> nothing_after_terminal i chain"

section \<open>Invariants of the tool-call tracking\<close>

text \<open>Every id on the send chain was generated in this turn: it is the clock reading
  paired with a sequence number that \<open>toolSeq\<close> has reached.\<close>

definition ids_bounded :: "(nat \<Rightarrow> int) \<Rightarrow> turn \<Rightarrow> bool" where
  "ids_bounded now t \<longleftrightarrow>
     (\<forall>u\<in>set (sendChain t). \<forall>i. update_id u = Some i \<longrightarrow>
        i = (now (snd i), snd i) \<and> snd i \<le> toolSeq t)"

text \<open>The open tool call is the latest one, and no terminal update of it was sent.\<close>

definition active_fresh :: "(nat \<Rightarrow> int) \<Rightarrow> turn \<Rightarrow> bool" where
  "active_fresh now t \<longleftrightarrow>
     (\<forall>tool. activeTool t = Some tool \<longrightarrow>
        tool_id tool = (now (toolSeq t), toolSeq t)
        \<and> \<not> (\<exists>u\<in>set (updates_of (tool_id tool) (sendChain t)). is_terminal u))"

definition turn_inv :: "(nat \<Rightarrow> int) \<Rightarrow> turn \<Rightarrow> bool" where
  "turn_inv now t \<longleftrightarrow>
     ids_bounded now t \<and> active_fresh now t \<and> (\<forall>i. nothing_after_terminal i (sendChain t))"

text \<open>While the turn is not cancelled, an opened tool call is the open one or has had
  its terminal update.\<close>

definition open_inv :: "turn \<Rightarrow> bool" where
  "open_inv t \<longleftrightarrow>
     (\<not> cancelled (sess t) \<longrightarrow>
        (\<forall>i. opened i (sendChain t) \<longrightarrow>
           (\<exists>tool. activeTool t = Some tool \<and> tool_id tool = i)
           \<or> (\<exists>u\<in>set (updates_of i (sendChain t)). is_terminal u)))"

text \<open>\<open>sentAny\<close> tells whether the send chain is non-empty.\<close>

definition sent_inv :: "turn \<Rightarrow> bool" where
  "sent_inv t \<longleftrightarrow> (sentAny t \<longleftrightarrow> sendChain t \<noteq> [])"

section \<open>The mode invariant of the registry\<close>

text \<open>The current mode of a session is among its available modes.\<close>

definition mode_listed :: "session \<Rightarrow> bool" where
  "mode_listed s \<longleftrightarrow> (\<exists>m\<in>set (availableModes s). mode_id m = currentModeId s)"

text \<open>Every session of the registry has its current mode listed.\<close>

definition modes_listed :: "agent \<Rightarrow> bool" where
  "modes_listed a \<longleftrightarrow> (\<forall>sessionId s. sessions a sessionId = Some s \<longrightarrow> mode_listed s)"


section \<open>Properties of \<open>stripAnsi\<close>\<close>

lemma in_concat_map: "x \<in> set (f a) \<Longrightarrow> a \<in> set xs \<Longrightarrow> x \<in> set (concat (map f xs))"
  by auto

lemma cls_iff: "r \<in> set (cls P s) \<longleftrightarrow> (\<exists>c. P c \<and> s = c # r)"
  by (cases s) auto

lemma star_greedy_iff:
  "r \<in> set (star_greedy P s) \<longleftrightarrow> (\<exists>p. (\<forall>c\<in>set p. P c) \<and> s = p @ r)"
proof (induction s)
  case Nil
  then show ?case by auto
next
  case (Cons a s)
  show ?case
  proof
    assume "r \<in> set (star_greedy P (a # s))"
    then consider "r = a # s" | "P a" "r \<in> set (star_greedy P s)"
      by (auto split: if_splits)
    then show "\<exists>p. (\<forall>c\<in>set p. P c) \<and> a # s = p @ r"
    proof cases
      case 1
      then show ?thesis by (intro exI [of _ "[]"]) simp
    next
      case 2
      with Cons obtain p where "\<forall>c\<in>set p. P c" "s = p @ r" by auto
      with 2 show ?thesis by (intro exI [of _ "a # p"]) simp
    qed
  next
    assume "\<exists>p. (\<forall>c\<in>set p. P c) \<and> a # s = p @ r"
    then obtain p where p: "\<forall>c\<in>set p. P c" "a # s = p @ r" by auto
    show "r \<in> set (star_greedy P (a # s))"
    proof (cases p)
      case Nil
      with p show ?thesis by auto
    next
      case (Cons b q)
      with p have "P a" "s = q @ r" "\<forall>c\<in>set q. P c" by auto
      with Cons.IH show ?thesis by auto
    qed
  qed
qed

lemma upto_greedy_iff:
  "r \<in> set (upto_greedy n P s) \<longleftrightarrow> (\<exists>p. (\<forall>c\<in>set p. P c) \<and> length p \<le> n \<and> s = p @ r)"
proof (induction n P s rule: upto_greedy.induct)
  case (1 P s)
  then show ?case by auto
next
  case (2 n P)
  then show ?case by auto
next
  case (3 n P a s)
  show ?case
  proof
    assume "r \<in> set (upto_greedy (Suc n) P (a # s))"
    then consider "r = a # s" | "P a" "r \<in> set (upto_greedy n P s)"
      by (auto split: if_splits)
    then show "\<exists>p. (\<forall>c\<in>set p. P c) \<and> length p \<le> Suc n \<and> a # s = p @ r"
    proof cases
      case 1
      then show ?thesis by (intro exI [of _ "[]"]) simp
    next
      case 2
      with 3 obtain p where "\<forall>c\<in>set p. P c" "length p \<le> n" "s = p @ r" by auto
      with 2 show ?thesis by (intro exI [of _ "a # p"]) simp
    qed
  next
    assume "\<exists>p. (\<forall>c\<in>set p. P c) \<and> length p \<le> Suc n \<and> a # s = p @ r"
    then obtain p where p: "\<forall>c\<in>set p. P c" "length p \<le> Suc n" "a # s = p @ r" by auto
    show "r \<in> set (upto_greedy (Suc n) P (a # s))"
    proof (cases p)
      case Nil
      with p show ?thesis by auto
    next
      case (Cons b q)
      with p have "P a" "s = q @ r" "\<forall>c\<in>set q. P c" "length q \<le> n" by auto
      with 3 show ?thesis by auto
    qed
  qed
qed

lemma star_semi_digits_sound:
  "r \<in> set (star_semi_digits s) \<Longrightarrow> \<exists>gs. (\<forall>g\<in>set gs. semi_group g) \<and> s = concat gs @ r"
proof (induction s arbitrary: r rule: star_semi_digits.induct)
  case 1
  then show ?case by (intro exI [of _ "[]"]) simp
next
  case (2 c s)
  show ?case
  proof (cases "r = c # s")
    case True
    then show ?thesis by (intro exI [of _ "[]"]) simp
  next
    case False
    with "2.prems" obtain q where c: "c = 0x3B" and q: "q \<in> set (upto_greedy 4 is_digit s)"
      and r: "r \<in> set (star_semi_digits q)"
      by (auto split: if_splits)
    from "2.IH" [OF c q r] obtain gs where gs: "\<forall>g\<in>set gs. semi_group g" "q = concat gs @ r"
      by auto
    from q obtain e where e: "\<forall>c\<in>set e. is_digit c" "length e \<le> 4" "s = e @ q"
      by (auto simp: upto_greedy_iff)
    have "semi_group (c # e)" using c e by (auto simp: semi_group_def)
    with gs e show ?thesis by (intro exI [of _ "(c # e) # gs"]) simp
  qed
qed

lemma star_semi_digits_self: "s \<in> set (star_semi_digits s)"
  by (cases s) auto

lemma star_semi_digits_complete':
  "\<forall>g\<in>set gs. semi_group g \<Longrightarrow> r \<in> set (star_semi_digits (concat gs @ r))"
proof (induction gs)
  case Nil
  then show ?case by (simp add: star_semi_digits_self)
next
  case (Cons g gs)
  then obtain e where e: "g = 0x3B # e" "\<forall>c\<in>set e. is_digit c" "length e \<le> 4"
    by (auto simp: semi_group_def)
  have "concat gs @ r \<in> set (upto_greedy 4 is_digit (e @ concat gs @ r))"
    using e by (auto simp: upto_greedy_iff)
  moreover have "r \<in> set (star_semi_digits (concat gs @ r))" using Cons by simp
  ultimately show ?case using e by auto
qed

lemma star_semi_digits_iff:
  "r \<in> set (star_semi_digits s) \<longleftrightarrow> (\<exists>gs. (\<forall>g\<in>set gs. semi_group g) \<and> s = concat gs @ r)"
  using star_semi_digits_sound star_semi_digits_complete' by blast

lemma ansi_params_iff:
  "r \<in> set (ansi_params s) \<longleftrightarrow> (\<exists>d. ansi_param_text d \<and> s = d @ r)"
proof
  assume "r \<in> set (ansi_params s)"
  then obtain a b where a: "a \<in> set (cls is_digit s)"
    and b: "b \<in> set (upto_greedy 3 is_digit a)" and r: "r \<in> set (star_semi_digits b)"
    unfolding ansi_params_def by auto
  from a obtain c where c: "is_digit c" "s = c # a" by (auto simp: cls_iff)
  from b obtain p where p: "\<forall>c\<in>set p. is_digit c" "length p \<le> 3" "a = p @ b"
    by (auto simp: upto_greedy_iff)
  from r obtain gs where gs: "\<forall>g\<in>set gs. semi_group g" "b = concat gs @ r"
    by (auto simp: star_semi_digits_iff)
  have "ansi_param_text ((c # p) @ concat gs)"
    unfolding ansi_param_text_def using c p gs
    by (intro exI [of _ "c # p"] exI [of _ gs]) auto
  moreover have "s = ((c # p) @ concat gs) @ r" using c p gs by simp
  ultimately show "\<exists>d. ansi_param_text d \<and> s = d @ r" by blast
next
  assume "\<exists>d. ansi_param_text d \<and> s = d @ r"
  then obtain h gs where h: "s = (h @ concat gs) @ r" "\<forall>c\<in>set h. is_digit c" "1 \<le> length h"
    "length h \<le> 4" and gs: "\<forall>g\<in>set gs. semi_group g"
    unfolding ansi_param_text_def by auto
  from h obtain c p where cp: "h = c # p" by (cases h) auto
  with h have a: "p @ concat gs @ r \<in> set (cls is_digit s)" by (auto simp: cls_iff)
  have b: "concat gs @ r \<in> set (upto_greedy 3 is_digit (p @ concat gs @ r))"
    using h cp by (auto simp: upto_greedy_iff)
  have "r \<in> set (star_semi_digits (concat gs @ r))" using gs by (rule star_semi_digits_complete')
  with a b show "r \<in> set (ansi_params s)" unfolding ansi_params_def by auto
qed

lemma ansi_paths_iff: "r \<in> set (ansi_paths s) \<longleftrightarrow> (\<exists>w. ansi_seq w \<and> s = w @ r)"
proof
  assume "r \<in> set (ansi_paths s)"
  then obtain a b c where a: "a \<in> set (cls is_intro s)"
    and b: "b \<in> set (star_greedy is_prefix_char a)"
    and c: "c \<in> set (ansi_params b) \<or> c = b" and r: "r \<in> set (cls is_final c)"
    unfolding ansi_paths_def by auto
  from a obtain i where i: "is_intro i" "s = i # a" by (auto simp: cls_iff)
  from b obtain p where p: "\<forall>c\<in>set p. is_prefix_char c" "a = p @ b"
    by (auto simp: star_greedy_iff)
  from c have "\<exists>d. (d = [] \<or> ansi_param_text d) \<and> b = d @ c"
  proof
    assume "c \<in> set (ansi_params b)"
    then show ?thesis by (auto simp: ansi_params_iff)
  next
    assume "c = b"
    then show ?thesis by (intro exI [of _ "[]"]) simp
  qed
  then obtain d where d: "d = [] \<or> ansi_param_text d" "b = d @ c" by blast
  from r obtain f where f: "is_final f" "c = f # r" by (auto simp: cls_iff)
  have "ansi_seq (i # p @ d @ [f])" unfolding ansi_seq_def using i p d f by blast
  moreover have "s = (i # p @ d @ [f]) @ r" using i p d f by simp
  ultimately show "\<exists>w. ansi_seq w \<and> s = w @ r" by blast
next
  assume "\<exists>w. ansi_seq w \<and> s = w @ r"
  then obtain i p d f where w: "s = (i # p @ d @ [f]) @ r" "is_intro i"
    "\<forall>c\<in>set p. is_prefix_char c" "d = [] \<or> ansi_param_text d" "is_final f"
    unfolding ansi_seq_def by blast
  have a: "p @ d @ f # r \<in> set (cls is_intro s)" using w by (auto simp: cls_iff)
  have b: "d @ f # r \<in> set (star_greedy is_prefix_char (p @ d @ f # r))"
    using w by (auto simp: star_greedy_iff)
  have c: "f # r \<in> set (ansi_params (d @ f # r) @ [d @ f # r])"
    using w(4) by (auto simp: ansi_params_iff)
  have r: "r \<in> set (cls is_final (f # r))" using w by simp
  note ab = in_concat_map [where f = "star_greedy is_prefix_char", OF b a]
  note abc = in_concat_map [where f = "\<lambda>r. ansi_params r @ [r]", OF c ab]
  from in_concat_map [where f = "cls is_final", OF r abc] show "r \<in> set (ansi_paths s)"
    unfolding ansi_paths_def .
qed

lemma ansi_match_None_iff: "ansi_match s = None \<longleftrightarrow> \<not> (\<exists>w r. ansi_seq w \<and> s = w @ r)"
proof -
  have "ansi_match s = None \<longleftrightarrow> ansi_paths s = []"
    unfolding ansi_match_def by (cases "ansi_paths s") simp_all
  also have "\<dots> \<longleftrightarrow> (\<forall>r. r \<notin> set (ansi_paths s))"
    by (cases "ansi_paths s") auto
  also have "\<dots> \<longleftrightarrow> (\<forall>r. \<not> (\<exists>w. ansi_seq w \<and> s = w @ r))"
    unfolding ansi_paths_iff ..
  finally show ?thesis by blast
qed

lemma ansi_match_Some: "ansi_match s = Some r \<Longrightarrow> \<exists>w. ansi_seq w \<and> s = w @ r"
proof -
  assume "ansi_match s = Some r"
  then have "r \<in> set (ansi_paths s)"
    unfolding ansi_match_def by (cases "ansi_paths s") auto
  then show ?thesis by (simp add: ansi_paths_iff)
qed

lemma ansi_match_no_intro: "\<not> is_intro c \<Longrightarrow> ansi_match (c # r) = None"
  by (simp add: ansi_match_def ansi_paths_def)

lemma stripAnsi_plain: "\<forall>c\<in>set s. \<not> is_intro c \<Longrightarrow> stripAnsi s = s"
  by (induction s) (simp_all add: ansi_match_no_intro)

subsection \<open>The first match is the longest\<close>

text \<open>A list of remaining inputs in which the first entry is a shortest one and the
  entries are in order of length.\<close>

lemma upto_greedy_sorted: "sorted (map length (upto_greedy n P s))"
proof (induction n P s rule: upto_greedy.induct)
  case (3 n P c r)
  have "\<forall>q\<in>set (upto_greedy n P r). length q \<le> length (c # r)"
    using upto_greedy_length [of _ n P r] by fastforce
  with 3 show ?case by (auto simp: sorted_append)
qed simp_all

lemma star_greedy_sorted: "sorted (map length (star_greedy P s))"
proof (induction s)
  case (Cons c r)
  have "\<forall>q\<in>set (star_greedy P r). length q \<le> length (c # r)"
    using star_greedy_length [of _ P r] by fastforce
  with Cons show ?case by (auto simp: sorted_append)
qed simp

text \<open>Every entry but the first starts with a code unit of the class.\<close>

lemma upto_greedy_tail:
  "\<exists>x xs. upto_greedy n P s = x # xs \<and> (\<forall>q\<in>set xs. \<exists>c q'. q = c # q' \<and> P c)"
proof (induction n P s rule: upto_greedy.induct)
  case (3 n P c r)
  then show ?case by (cases "P c") auto
qed simp_all

lemma star_greedy_tail:
  "\<exists>x xs. star_greedy P s = x # xs \<and> (\<forall>q\<in>set xs. \<exists>c q'. q = c # q' \<and> P c)"
proof (induction s)
  case (Cons c r)
  then show ?case by (cases "P c") auto
qed simp

lemma digit_not_semicolon: "is_digit c \<Longrightarrow> c \<noteq> 0x3B"
  by (auto simp: is_digit_def)

lemma prefix_char_not_digit: "is_prefix_char c \<Longrightarrow> \<not> is_digit c"
  by (auto simp: is_prefix_char_def is_digit_def)

lemma prefix_char_not_final: "is_prefix_char c \<Longrightarrow> \<not> is_final c"
  by (auto simp: is_prefix_char_def is_final_def)


lemma star_semi_digits_digit: "is_digit c \<Longrightarrow> star_semi_digits (c # q) = [c # q]"
  by (simp add: digit_not_semicolon)

lemma concat_map_single: "\<forall>q\<in>set xs. f q = [q] \<Longrightarrow> concat (map f xs) = xs"
  by (induction xs) simp_all

lemma concat_map_empty: "\<forall>q\<in>set xs. f q = [] \<Longrightarrow> concat (map f xs) = []"
  by (induction xs) simp_all

text \<open>After a run of digits, the star continues from the first entry only.\<close>

lemma star_after_digits:
  assumes "upto_greedy n is_digit s = x # xs"
  shows "concat (map star_semi_digits (upto_greedy n is_digit s)) = star_semi_digits x @ xs"
proof -
  from upto_greedy_tail [of n is_digit s] assms
  have t: "\<forall>q\<in>set xs. \<exists>c q'. q = c # q' \<and> is_digit c" by simp
  have "\<forall>q\<in>set xs. star_semi_digits q = [q]"
  proof
    fix q assume "q \<in> set xs"
    with t obtain c q' where "q = c # q'" "is_digit c" by blast
    then show "star_semi_digits q = [q]" by (simp only: star_semi_digits_digit)
  qed
  then have "concat (map star_semi_digits xs) = xs" by (rule concat_map_single)
  then show ?thesis using assms by simp
qed

lemma sorted_star_then_rest:
  assumes "sorted (map length (x # xs))" and "sorted (map length ys)"
    and "\<forall>y\<in>set ys. length y \<le> length x"
  shows "sorted (map length (ys @ xs))"
  using assms by (fastforce simp: sorted_append)

lemma star_semi_digits_sorted: "sorted (map length (star_semi_digits s))"
proof (induction s rule: star_semi_digits.induct)
  case 1
  show ?case by simp
next
  case (2 c r)
  show ?case
  proof (cases "c = 0x3B")
    case False
    then show ?thesis by simp
  next
    case True
    obtain x xs where x: "upto_greedy 4 is_digit r = x # xs"
      using upto_greedy_tail [of 4 is_digit r] by blast
    then have xin: "x \<in> set (upto_greedy 4 is_digit r)" by simp
    have s1: "sorted (map length (x # xs))"
      using upto_greedy_sorted [of 4 is_digit r] x by simp
    have s2: "sorted (map length (star_semi_digits x))"
      using "2.IH" [OF True xin] .
    have s3: "\<forall>y\<in>set (star_semi_digits x). length y \<le> length x"
      using star_semi_digits_length by blast
    have s4: "sorted (map length (star_semi_digits x @ xs))"
      using s1 s2 s3 by (rule sorted_star_then_rest)
    have le: "\<forall>q\<in>set (star_semi_digits x @ xs). length q \<le> length (c # r)"
    proof
      fix q assume "q \<in> set (star_semi_digits x @ xs)"
      then have "length q \<le> length x \<or> q \<in> set (upto_greedy 4 is_digit r)"
        using s3 x by auto
      moreover have "length x \<le> length r" using upto_greedy_length [OF xin] .
      ultimately show "length q \<le> length (c # r)"
        using upto_greedy_length [of q 4 is_digit r] by auto
    qed
    have "star_semi_digits (c # r) = (star_semi_digits x @ xs) @ [c # r]"
      using True star_after_digits [OF x] by simp
    then show ?thesis using s4 le by (simp add: sorted_append del: star_semi_digits.simps)
  qed
qed

lemma ansi_params_sorted: "sorted (map length (ansi_params s))"
proof (cases s)
  case Nil
  then show ?thesis by (simp add: ansi_params_def)
next
  case (Cons c r)
  show ?thesis
  proof (cases "is_digit c")
    case False
    then show ?thesis using Cons by (simp add: ansi_params_def)
  next
    case True
    obtain x xs where x: "upto_greedy 3 is_digit r = x # xs"
      using upto_greedy_tail [of 3 is_digit r] by blast
    have s1: "sorted (map length (x # xs))"
      using upto_greedy_sorted [of 3 is_digit r] x by simp
    have s3: "\<forall>y\<in>set (star_semi_digits x). length y \<le> length x"
      using star_semi_digits_length by blast
    have "ansi_params s = star_semi_digits x @ xs"
      using Cons True star_after_digits [OF x] by (simp add: ansi_params_def)
    then show ?thesis
      using sorted_star_then_rest [OF s1 star_semi_digits_sorted s3] by simp
  qed
qed

lemma cls_sorted:
  "sorted (map length L) \<Longrightarrow> sorted (map length (concat (map (cls P) L)))"
proof (induction L)
  case Nil
  show ?case by simp
next
  case (Cons q L)
  have later: "\<forall>r\<in>set (concat (map (cls P) L)). \<exists>q'\<in>set L. Suc (length r) = length q'"
  proof
    fix r assume "r \<in> set (concat (map (cls P) L))"
    then obtain q' where q': "q' \<in> set L" "r \<in> set (cls P q')" by auto
    from q'(2) obtain c where "q' = c # r" by (auto simp: cls_iff)
    then have "Suc (length r) = length q'" by simp
    with q'(1) show "\<exists>q'\<in>set L. Suc (length r) = length q'" by blast
  qed
  from Cons have "sorted (map length (concat (map (cls P) L)))" by simp
  moreover have "\<forall>r\<in>set (cls P q). \<forall>r'\<in>set (concat (map (cls P) L)). length r \<le> length r'"
  proof (intro ballI)
    fix r r' assume r: "r \<in> set (cls P q)" and r': "r' \<in> set (concat (map (cls P) L))"
    from r have "Suc (length r) = length q" by (auto simp: cls_iff)
    moreover from r' later obtain q' where "q' \<in> set L" "Suc (length r') = length q'" by blast
    moreover from Cons.prems this(1) have "length q \<le> length q'" by auto
    ultimately show "length r \<le> length r'" by simp
  qed
  moreover have "sorted (map length (cls P q))" by (cases q) simp_all
  ultimately show ?case by (simp add: sorted_append)
qed

lemma ansi_paths_sorted: "sorted (map length (ansi_paths s))"
proof (cases s)
  case Nil
  then show ?thesis by (simp add: ansi_paths_def)
next
  case (Cons i r1)
  show ?thesis
  proof (cases "is_intro i")
    case False
    then show ?thesis using Cons by (simp add: ansi_paths_def)
  next
    case True
    obtain x xs where x: "star_greedy is_prefix_char r1 = x # xs"
      and xs: "\<forall>q\<in>set xs. \<exists>c q'. q = c # q' \<and> is_prefix_char c"
      using star_greedy_tail [of is_prefix_char r1] by blast
    have p: "\<forall>q\<in>set xs. ansi_params q @ [q] = [q]"
    proof
      fix q assume "q \<in> set xs"
      with xs obtain c q' where "q = c # q'" "is_prefix_char c" by blast
      then show "ansi_params q @ [q] = [q]"
        by (simp add: ansi_params_def prefix_char_not_digit)
    qed
    have f: "\<forall>q\<in>set xs. cls is_final q = []"
    proof
      fix q assume "q \<in> set xs"
      with xs obtain c q' where "q = c # q'" "is_prefix_char c" by blast
      then show "cls is_final q = []" by (simp add: prefix_char_not_final)
    qed
    have "concat (map (\<lambda>r. ansi_params r @ [r]) xs) = xs"
      using p by (rule concat_map_single)
    moreover have "concat (map (cls is_final) xs) = []"
      using f by (rule concat_map_empty)
    ultimately have eq: "ansi_paths s = concat (map (cls is_final) (ansi_params x @ [x]))"
      using Cons True x by (simp add: ansi_paths_def)
    have "\<forall>q\<in>set (ansi_params x). length q \<le> length x"
      using ansi_params_length by fastforce
    then have "sorted (map length (ansi_params x @ [x]))"
      using ansi_params_sorted [of x] by (simp add: sorted_append)
    then show ?thesis unfolding eq by (rule cls_sorted)
  qed
qed

lemma ansi_match_shortest_rest:
  assumes "ansi_match s = Some r" and "r' \<in> set (ansi_paths s)"
  shows "length r \<le> length r'"
proof -
  from assms(1) obtain rest where p: "ansi_paths s = r # rest"
    unfolding ansi_match_def by (cases "ansi_paths s") auto
  from ansi_paths_sorted [of s] p have "\<forall>q\<in>set rest. length r \<le> length q" by simp
  with assms(2) p show ?thesis by auto
qed

lemma ansi_match_longest:
  assumes "ansi_match s = Some r"
  shows "\<exists>w. s = w @ r \<and> longest_seq w s"
proof -
  from ansi_match_Some [OF assms] obtain w where w: "ansi_seq w" "s = w @ r" by blast
  have "length w' \<le> length w" if "ansi_seq w'" "s = w' @ r'" for w' r'
  proof -
    from that have "r' \<in> set (ansi_paths s)" by (auto simp: ansi_paths_iff)
    from ansi_match_shortest_rest [OF assms this] that(2) w(2) show ?thesis
      by (metis add_le_cancel_right length_append nat_add_left_cancel_le add.commute)
  qed
  with w show ?thesis unfolding longest_seq_def by blast
qed


subsection \<open>\<open>stripAnsi\<close> against the reading of the pattern\<close>

lemma strips_stripAnsi: "strips s (stripAnsi s)"
proof (induction s rule: stripAnsi.induct)
  case 1
  show ?case by (simp add: strips_Nil)
next
  case (2 c r)
  show ?case
  proof (cases "ansi_match (c # r)")
    case None
    then have "\<not> (\<exists>w r'. ansi_seq w \<and> c # r = w @ r')" by (simp add: ansi_match_None_iff)
    moreover have "strips r (stripAnsi r)" using 2 None by simp
    ultimately show ?thesis using None by (simp add: strips_keep)
  next
    case (Some rest)
    then obtain w where w: "c # r = w @ rest" "longest_seq w (c # r)"
      using ansi_match_longest by blast
    have "strips rest (stripAnsi rest)" using 2 Some by simp
    with w have "strips (w @ rest) (stripAnsi rest)" by (simp add: strips_seq)
    moreover have "stripAnsi (c # r) = stripAnsi rest" using Some by simp
    ultimately show ?thesis using w(1) by simp
  qed
qed

lemma ansi_seq_nonempty: "ansi_seq w \<Longrightarrow> w \<noteq> []"
  by (auto simp: ansi_seq_def)

lemma longest_seq_unique:
  assumes "longest_seq w s" and "longest_seq w' s"
  shows "w = w'"
proof -
  from assms obtain r r' where r: "s = w @ r" "s = w' @ r'"
    unfolding longest_seq_def by blast
  from assms r have "length w = length w'"
    unfolding longest_seq_def by (meson le_antisym)
  with r show ?thesis by (metis append_eq_append_conv)
qed

lemma strips_unique: "strips s out \<Longrightarrow> strips s out' \<Longrightarrow> out = out'"
proof (induction s out arbitrary: out' rule: strips.induct)
  case strips_Nil
  from strips_Nil.prems show ?case
  proof (cases rule: strips.cases)
    case (strips_seq w r)
    then show ?thesis by (auto simp: longest_seq_def dest: ansi_seq_nonempty)
  qed simp_all
next
  case (strips_seq w r out)
  from strips_seq.prems show ?case
  proof (cases rule: strips.cases)
    case strips_Nil
    with strips_seq.hyps(1) show ?thesis
      by (auto simp: longest_seq_def dest: ansi_seq_nonempty)
  next
    case other: (strips_seq w2 r2)
    from other(1) other(2) have "longest_seq w2 (w @ r)" by simp
    with strips_seq.hyps(1) have "w = w2" by (rule longest_seq_unique)
    with other(1) have "r = r2" by simp
    with other(3) strips_seq.IH show ?thesis by simp
  next
    case (strips_keep c r2 out2)
    with strips_seq.hyps(1) show ?thesis
      unfolding longest_seq_def by metis
  qed
next
  case (strips_keep c r out)
  from strips_keep.prems show ?case
  proof (cases rule: strips.cases)
    case (strips_seq w2 r2)
    with strips_keep.hyps(1) show ?thesis
      unfolding longest_seq_def by metis
  next
    case other: (strips_keep out2)
    with strips_keep.IH show ?thesis by simp
  qed
qed

text \<open>
  C9. \<open>stripAnsi\<close> is a function of its input alone. An input without the escape
  (U+001B) and single-shift-control (U+009B) code units comes back unchanged, whatever
  else it contains. For every input the result is the input with exactly the recognized
  sequences removed: reading from the left, where a recognized sequence starts the
  longest one that starts there is dropped, every other code unit is kept, and no
  other output meets this description.
\<close>

theorem stripAnsi_removes_recognized_sequences:
  "(ESC \<notin> set s \<and> CSI \<notin> set s \<longrightarrow> stripAnsi s = s)
   \<and> (strips s out \<longleftrightarrow> out = stripAnsi s)"
proof
  show "ESC \<notin> set s \<and> CSI \<notin> set s \<longrightarrow> stripAnsi s = s"
  proof
    assume "ESC \<notin> set s \<and> CSI \<notin> set s"
    then have "\<forall>c\<in>set s. \<not> is_intro c" by (auto simp: is_intro_def)
    then show "stripAnsi s = s" by (rule stripAnsi_plain)
  qed
  show "strips s out \<longleftrightarrow> out = stripAnsi s"
    using strips_stripAnsi [of s] strips_unique [of s out "stripAnsi s"] by blast
qed

theorem stripAnsi_removes_recognized_sequences_witness:
  "ESC \<notin> set ([0x65E5, 0x672C, 0xD83D, 0xDE00] @ js ''[0m abc'')
   \<and> CSI \<notin> set ([0x65E5, 0x672C, 0xD83D, 0xDE00] @ js ''[0m abc'')
   \<and> stripAnsi ([0x65E5, 0x672C, 0xD83D, 0xDE00] @ js ''[0m abc'')
       = [0x65E5, 0x672C, 0xD83D, 0xDE00] @ js ''[0m abc''
   \<and> strips ([ESC] @ js ''[1;31mhi'' @ [CSI] @ js ''0m'') (js ''hi'')
   \<and> \<not> strips ([ESC] @ js ''[1;31mhi'' @ [CSI] @ js ''0m'') (js '';31mhim'')"
proof -
  have h: "ESC \<notin> set ([0x65E5, 0x672C, 0xD83D, 0xDE00] @ js ''[0m abc'')
      \<and> CSI \<notin> set ([0x65E5, 0x672C, 0xD83D, 0xDE00] @ js ''[0m abc'')"
    by (simp add: js_def)
  have e: "stripAnsi ([ESC] @ js ''[1;31mhi'' @ [CSI] @ js ''0m'') = js ''hi''"
    by code_simp
  have n: "js '';31mhim'' \<noteq> js ''hi''"
    by (simp add: js_def)
  from stripAnsi_removes_recognized_sequences
    [of "[0x65E5, 0x672C, 0xD83D, 0xDE00] @ js ''[0m abc''"] h
  have a: "stripAnsi ([0x65E5, 0x672C, 0xD83D, 0xDE00] @ js ''[0m abc'')
      = [0x65E5, 0x672C, 0xD83D, 0xDE00] @ js ''[0m abc''"
    by blast
  note t = stripAnsi_removes_recognized_sequences
    [of "[ESC] @ js ''[1;31mhi'' @ [CSI] @ js ''0m''", unfolded e]
  from t [of "js ''hi''"]
  have b: "strips ([ESC] @ js ''[1;31mhi'' @ [CSI] @ js ''0m'') (js ''hi'')"
    by blast
  from t [of "js '';31mhim''"] n
  have c: "\<not> strips ([ESC] @ js ''[1;31mhi'' @ [CSI] @ js ''0m'') (js '';31mhim'')"
    by blast
  from h a b c show ?thesis by blast
qed

section \<open>Properties of \<open>promptToText\<close>\<close>

lemma join_empty_sep: "join [] ps = concat ps"
  by (induction "[] :: jstring" ps rule: join.induct) simp_all

lemma foldl_push_chunk:
  "concat (foldl push_chunk acc chunks) = concat acc @ concat (map contribution chunks)"
proof (induction chunks arbitrary: acc)
  case Nil
  show ?case by simp
next
  case (Cons ch chunks)
  have "concat (push_chunk acc ch) = concat acc @ contribution ch"
    by (induction acc ch rule: push_chunk.induct) simp_all
  with Cons [of "push_chunk acc ch"] show ?case by simp
qed

lemma textless_contribution: "textless ch \<Longrightarrow> contribution ch = []"
  by (induction ch rule: textless.induct) simp_all

text \<open>
  C10. \<open>promptToText\<close> returns the concatenation, in order, of what each chunk
  contributes (the text of text chunks, the uri of resource links, the context-wrapped
  text of resources that have text, the uri of images that have one), and a prompt made
  only of text-less resources and uri-less images gives the empty string.
\<close>

theorem promptToText_concat_contributions:
  "promptToText chunks = concat (map contribution chunks)
   \<and> ((\<forall>ch\<in>set chunks. textless ch) \<longrightarrow> promptToText chunks = [])"
proof
  show eq: "promptToText chunks = concat (map contribution chunks)"
    unfolding promptToText_def join_empty_sep using foldl_push_chunk [of "[]" chunks] by simp
  show "(\<forall>ch\<in>set chunks. textless ch) \<longrightarrow> promptToText chunks = []"
    unfolding eq by (simp add: textless_contribution)
qed

theorem promptToText_concat_contributions_witness:
  "promptToText [TextChunk (js ''a''), ResourceLinkChunk (js ''file:///x''), TextChunk (js ''b'')]
     = js ''afile:///xb''
   \<and> textless (ResourceChunk (BlobResource (js ''u'') (js ''AA=='')))
   \<and> textless (ImageChunk None)
   \<and> promptToText [ResourceChunk (BlobResource (js ''u'') (js ''AA=='')), ImageChunk None] = []"
  using promptToText_concat_contributions
    [of "[TextChunk (js ''a''), ResourceLinkChunk (js ''file:///x''), TextChunk (js ''b'')]"]
    promptToText_concat_contributions
    [of "[ResourceChunk (BlobResource (js ''u'') (js ''AA=='')), ImageChunk None]"]
  by (simp add: js_def)

section \<open>Concrete runs of the translator\<close>

subsection \<open>The tool-call scenario\<close>

lemma processChunk_tool_start:
  "processChunk (line_tool_start @ [LF]) False [] = ([line_tool_start @ [LF]], [])"
  by code_simp

lemma processChunk_output:
  "processChunk (line_output @ [LF]) False [] = ([line_output @ [LF]], [])"
  by code_simp

lemma processChunk_completed:
  "processChunk (line_completed @ [LF]) False [] = ([line_completed @ [LF]], [])"
  by code_simp

lemma processChunk_prose:
  "processChunk (line_prose @ [LF]) False [] = ([line_prose @ [LF]], [])"
  by code_simp

lemma processChunk_flush_empty: "processChunk [] True [] = ([], [])"
  by code_simp

lemma split_tool_start: "pop (split_lines (line_tool_start @ [LF])) = (Some [], [line_tool_start])"
  by code_simp

lemma split_output: "pop (split_lines (line_output @ [LF])) = (Some [], [line_output])"
  by code_simp

lemma split_completed: "pop (split_lines (line_completed @ [LF])) = (Some [], [line_completed])"
  by code_simp

lemma split_prose: "pop (split_lines (line_prose @ [LF])) = (Some [], [line_prose])"
  by code_simp

lemma toolStartRe_tool_start: "toolStartRe line_tool_start = Some (js ''ls'', js ''shell'')"
  by code_simp

lemma toolStartRe_others:
  "toolStartRe line_output = None" "toolStartRe line_completed = None"
  "toolStartRe line_prose = None"
  by code_simp+

lemma toolDoneRe_lines: "toolDoneRe line_output = False" "toolDoneRe line_completed = True"
  by code_simp+

lemma prose_is_no_thought:
  "(\<exists>prefix\<in>set thoughtPrefixes. startsWith line_prose prefix) = False"
  by code_simp

lemma scenario_strings:
  "trim (js ''ls'') = js ''ls''" "trim (js ''shell'') = js ''shell''" "js ''shell'' \<noteq> []"
  "js ''shell'' @ js '': '' @ js ''ls'' = js ''shell: ls''" "line_output \<noteq> []"
  by code_simp+

lemma run_scenario:
  assumes c: "\<not> cancelled S"
  shows "on_close now (foldl (turn_step now)
      (\<lparr>stdoutBuffer = [], stderrBuffer = []\<rparr>,
       \<lparr>sess = S, sentAny = False, sendChain = [], toolSeq = 0, activeTool = None,
        lineBuffer = []\<rparr>) scenario_events)
     = (\<lparr>stdoutBuffer = [], stderrBuffer = []\<rparr>,
        \<lparr>sess = S, sentAny = True,
         sendChain =
           [ToolCall (now 1, 1) (js ''shell: ls'') Execute InProgress (js ''ls''),
            ToolCallUpdate (now 1, 1) (Some InProgress) (Some line_output) (Some line_output),
            ToolCallUpdate (now 1, 1) (Some Completed) (Some line_output) (Some line_output),
            AgentMessageChunk (line_prose @ [LF])],
         toolSeq = 1, activeTool = None, lineBuffer = []\<rparr>)"
proof -
  define c0 where "c0 = \<lparr>stdoutBuffer = [], stderrBuffer = []\<rparr>"
  define T0 where "T0 = \<lparr>sess = S, sentAny = False, sendChain = [], toolSeq = 0,
      activeTool = None, lineBuffer = []\<rparr>"
  define tool where "tool = \<lparr>tool_id = (now 1, 1), kind = Execute, title = js ''shell: ls'',
      rawInput = js ''ls'', output_lines = []\<rparr>"
  define u1 where "u1 = ToolCall (now 1, 1) (js ''shell: ls'') Execute InProgress (js ''ls'')"
  define u2 where
    "u2 = ToolCallUpdate (now 1, 1) (Some InProgress) (Some line_output) (Some line_output)"
  define u3 where
    "u3 = ToolCallUpdate (now 1, 1) (Some Completed) (Some line_output) (Some line_output)"
  define T1 where
    "T1 = T0\<lparr>sentAny := True, sendChain := [u1], toolSeq := 1, activeTool := Some tool\<rparr>"
  define T2 where "T2 = T0\<lparr>sentAny := True, sendChain := [u1, u2], toolSeq := 1,
      activeTool := Some (tool\<lparr>output_lines := [line_output]\<rparr>)\<rparr>"
  define T3 where "T3 = T0\<lparr>sentAny := True, sendChain := [u1, u2, u3], toolSeq := 1\<rparr>"
  define T4 where "T4 = T0\<lparr>sentAny := True,
      sendChain := [u1, u2, u3, AgentMessageChunk (line_prose @ [LF])], toolSeq := 1\<rparr>"
  have e1: "turn_step now (c0, T0) (StdoutData (line_tool_start @ [LF])) = (c0, T1)"
    using c unfolding T0_def T1_def c0_def tool_def u1_def
    by (simp add: Let_def processChunk_tool_start split_tool_start toolStartRe_tool_start
        scenario_strings onChunks_def handleChunk_def handleLine_def sendToolCall_def
        sendUpdate_def)
  have e2: "turn_step now (c0, T1) (StdoutData (line_output @ [LF])) = (c0, T2)"
    using c unfolding T0_def T1_def T2_def c0_def tool_def u1_def u2_def
    by (simp add: processChunk_output split_output toolStartRe_others toolDoneRe_lines
        scenario_strings onChunks_def handleChunk_def handleLine_def sendToolUpdate_def
        sendUpdate_def toolContent_def)
  have e3: "turn_step now (c0, T2) (StdoutData (line_completed @ [LF])) = (c0, T3)"
    using c unfolding T0_def T2_def T3_def c0_def tool_def u1_def u2_def u3_def
    by (simp add: processChunk_completed split_completed toolStartRe_others toolDoneRe_lines
        scenario_strings onChunks_def handleChunk_def handleLine_def sendToolUpdate_def
        sendUpdate_def toolContent_def)
  have e4: "turn_step now (c0, T3) (StdoutData (line_prose @ [LF])) = (c0, T4)"
    using c unfolding T0_def T3_def T4_def c0_def
    by (simp add: processChunk_prose split_prose toolStartRe_others prose_is_no_thought
        onChunks_def handleChunk_def handleLine_def sendText_def sendUpdate_def)
  have e5: "on_close now (c0, T4) = (c0, T4)"
    unfolding c0_def on_close_def by (simp add: processChunk_flush_empty onChunks_def)
  have "on_close now (foldl (turn_step now) (c0, T0) scenario_events) = (c0, T4)"
    unfolding scenario_events_def by (simp only: foldl_Cons foldl_Nil e1 e2 e3 e4 e5)
  then show ?thesis
    unfolding c0_def T0_def T4_def u1_def u2_def u3_def by simp
qed

text \<open>
  C3. The subprocess emits the tool announcement for \<open>ls\<close> with tool \<open>shell\<close>, the
  line \<open>file.txt\<close>, the line \<open>- Completed in 0.1s\<close> and the prose line \<open>Done.\<close>, one
  delivery each, and exits with code 0; no cancel arrives and the capability check has
  passed or passes. Then \<open>prompt\<close> returns \<open>end_turn\<close> and the updates sent are exactly:
  a \<open>tool_call\<close> of kind \<open>execute\<close> titled \<open>shell: ls\<close>, an \<open>in_progress\<close> update with
  output \<open>file.txt\<close>, a \<open>completed\<close> update, and the text \<open>Done.\<close> with its line feed.
\<close>

theorem tool_call_scenario:
  assumes "events w = scenario_events" and "exit_code w = Some 0"
    and "\<not> cancel_in_preflight w" and "\<not> cancel_in_drain w"
    and "preflightOk s \<or> ready w = Ready"
  shows "fst (prompt_session w params s) = Inr EndTurn
    \<and> snd (snd (prompt_session w params s)) =
        [ToolCall (clock w 1, 1) (js ''shell: ls'') Execute InProgress (js ''ls''),
         ToolCallUpdate (clock w 1, 1) (Some InProgress) (Some (js ''file.txt''))
           (Some (js ''file.txt'')),
         ToolCallUpdate (clock w 1, 1) (Some Completed) (Some (js ''file.txt''))
           (Some (js ''file.txt'')),
         AgentMessageChunk (js ''Done.'' @ [LF])]"
proof -
  define S where "S = (syncKiroDefaultAgent (zedDefault w) (setDefaultCode w)
      ((entry_session w s)\<lparr>preflightOk := True\<rparr>))\<lparr>child := True\<rparr>"
  have c: "\<not> cancelled S"
    unfolding S_def syncKiroDefaultAgent_def entry_session_def using assms(3)
    by (simp add: Let_def split: option.splits)
  have r: "(if preflightOk (entry_session w s) then Ready else ready w) = Ready"
    using assms(5) by (auto simp: entry_session_def Let_def cancel_session_def)
  have "on_close (clock w) (turn_after w s (events w)) =
      (\<lparr>stdoutBuffer = [], stderrBuffer = []\<rparr>,
       \<lparr>sess = S, sentAny = True,
        sendChain =
          [ToolCall (clock w 1, 1) (js ''shell: ls'') Execute InProgress (js ''ls''),
           ToolCallUpdate (clock w 1, 1) (Some InProgress) (Some line_output) (Some line_output),
           ToolCallUpdate (clock w 1, 1) (Some Completed) (Some line_output) (Some line_output),
           AgentMessageChunk (line_prose @ [LF])],
        toolSeq = 1, activeTool = None, lineBuffer = []\<rparr>)"
    unfolding turn_after_def start_turn_def assms(1) S_def [symmetric]
    by (rule run_scenario [OF c])
  then have "closed_turn w s =
       \<lparr>sess = S\<lparr>child := False\<rparr>, sentAny = True,
        sendChain =
          [ToolCall (clock w 1, 1) (js ''shell: ls'') Execute InProgress (js ''ls''),
           ToolCallUpdate (clock w 1, 1) (Some InProgress) (Some line_output) (Some line_output),
           ToolCallUpdate (clock w 1, 1) (Some Completed) (Some line_output) (Some line_output),
           AgentMessageChunk (line_prose @ [LF])],
        toolSeq = 1, activeTool = None, lineBuffer = []\<rparr>"
    unfolding closed_turn_def flushed_turn_def by (simp add: flush_line_def close_tool_def)
  then show ?thesis
    unfolding prompt_session_def using assms(2,4) c r
    by (simp add: finish_turn_def Let_def cancel_session_def line_output_def line_prose_def)
qed

theorem tool_call_scenario_witness:
  "events (example_world scenario_events (Some 0)) = scenario_events
   \<and> exit_code (example_world scenario_events (Some 0)) = Some 0
   \<and> \<not> cancel_in_preflight (example_world scenario_events (Some 0))
   \<and> \<not> cancel_in_drain (example_world scenario_events (Some 0))
   \<and> preflightOk example_session
   \<and> fst (prompt_session (example_world scenario_events (Some 0)) [] example_session) = Inr EndTurn
   \<and> snd (snd (prompt_session (example_world scenario_events (Some 0)) [] example_session)) =
        [ToolCall (1700000000000, 1) (js ''shell: ls'') Execute InProgress (js ''ls''),
         ToolCallUpdate (1700000000000, 1) (Some InProgress) (Some (js ''file.txt''))
           (Some (js ''file.txt'')),
         ToolCallUpdate (1700000000000, 1) (Some Completed) (Some (js ''file.txt''))
           (Some (js ''file.txt'')),
         AgentMessageChunk (js ''Done.'' @ [LF])]"
proof -
  have h: "events (example_world scenario_events (Some 0)) = scenario_events"
    "exit_code (example_world scenario_events (Some 0)) = Some 0"
    "\<not> cancel_in_preflight (example_world scenario_events (Some 0))"
    "\<not> cancel_in_drain (example_world scenario_events (Some 0))"
    "preflightOk example_session"
    by (simp_all add: example_world_def example_session_def)
  have k: "clock (example_world scenario_events (Some 0)) 1 = 1700000000000"
    by (simp add: example_world_def)
  from h(5) have "preflightOk example_session \<or> ready (example_world scenario_events (Some 0)) = Ready"
    by simp
  from tool_call_scenario [OF h(1-4) this, of "[]"] h show ?thesis
    unfolding k by blast
qed

subsection \<open>Deliveries that change the events\<close>

text \<open>
  C1. The stream \<open>a\<close>, carriage return, line feed, \<open>b\<close>, line feed gives two text
  events when it arrives in one delivery, and three (an empty line between them) when
  the delivery boundary falls between the carriage return and the line feed.
\<close>

theorem chunk_split_changes_events:
  "snd (snd (prompt_session
      (example_world [StdoutData (js ''a'' @ [CR, LF] @ js ''b'' @ [LF])] (Some 0)) []
      example_session))
     = [AgentMessageChunk (js ''a'' @ [LF]), AgentMessageChunk (js ''b'' @ [LF])]
   \<and> snd (snd (prompt_session
      (example_world [StdoutData (js ''a'' @ [CR]), StdoutData ([LF] @ js ''b'' @ [LF])] (Some 0)) []
      example_session))
     = [AgentMessageChunk (js ''a'' @ [LF]), AgentMessageChunk [LF],
        AgentMessageChunk (js ''b'' @ [LF])]"
  by code_simp

text \<open>
  C2. An escape sequence split across two deliveries reaches the events as literal
  code units: in \<open>processChunk\<close>, which normalizes each delivery on its own, and in
  \<open>processStdout\<close>, whose window ends where the held-back 64 code units begin, here
  between the escape and the bracket.
\<close>

theorem split_escape_sequence_is_forwarded:
  "snd (snd (prompt_session
      (example_world [StdoutData [ESC], StdoutData (js ''[31mhi'' @ [LF])] (Some 0)) []
      example_session))
     = [AgentMessageChunk ([ESC] @ js ''[31mhi'' @ [LF])]
   \<and> stdout_chunks [js ''> '' @ [ESC], js ''[31m'' @ replicate 60 0x78]
     = [[ESC], js ''[31m'' @ replicate 60 0x78]"
  by code_simp

section \<open>Properties of a turn\<close>

subsection \<open>What the closures of a turn leave alone\<close>

lemma sendUpdate_frame [simp]:
  "sess (sendUpdate u t) = sess t" "toolSeq (sendUpdate u t) = toolSeq t"
  "activeTool (sendUpdate u t) = activeTool t" "lineBuffer (sendUpdate u t) = lineBuffer t"
  by (simp_all add: sendUpdate_def)

lemma sendUpdate_cancelled: "cancelled (sess t) \<Longrightarrow> sendUpdate u t = t"
  by (simp add: sendUpdate_def)

lemma sendUpdate_chain:
  "\<not> cancelled (sess t) \<Longrightarrow> sendChain (sendUpdate u t) = sendChain t @ [u]"
  by (simp add: sendUpdate_def)

lemma sendToolCall_frame [simp]:
  "sess (sendToolCall t) = sess t" "toolSeq (sendToolCall t) = toolSeq t"
  "activeTool (sendToolCall t) = activeTool t" "lineBuffer (sendToolCall t) = lineBuffer t"
  by (simp_all add: sendToolCall_def split: option.splits)

lemma sendToolUpdate_frame [simp]:
  "sess (sendToolUpdate st t) = sess t" "toolSeq (sendToolUpdate st t) = toolSeq t"
  "activeTool (sendToolUpdate st t) = activeTool t"
  "lineBuffer (sendToolUpdate st t) = lineBuffer t"
  by (simp_all add: sendToolUpdate_def split: option.splits)

lemma handleLine_sess [simp]: "sess (handleLine now line t) = sess t"
  by (simp add: handleLine_def Let_def sendText_def sendThought_def split: option.splits prod.splits)

lemma handleLine_lineBuffer [simp]: "lineBuffer (handleLine now line t) = lineBuffer t"
  by (simp add: handleLine_def Let_def sendText_def sendThought_def split: option.splits prod.splits)

lemma foldl_handleLine_sess [simp]:
  "sess (foldl (\<lambda>t part. handleLine now part t) t parts) = sess t"
  by (induction parts arbitrary: t) simp_all

lemma handleChunk_sess [simp]: "sess (handleChunk now txt t) = sess t"
  by (simp add: handleChunk_def Let_def split: prod.splits)

lemma onChunks_sess [simp]: "sess (onChunks now texts t) = sess t"
  unfolding onChunks_def by (induction texts arbitrary: t) simp_all


subsection \<open>After a cancel\<close>

lemma handleLine_cancelled:
  "cancelled (sess t) \<Longrightarrow> sendChain (handleLine now line t) = sendChain t"
  by (simp add: handleLine_def Let_def sendText_def sendThought_def sendToolCall_def
      sendToolUpdate_def sendUpdate_def split: option.splits prod.splits)

lemma foldl_handleLine_cancelled:
  "cancelled (sess t) \<Longrightarrow>
   sendChain (foldl (\<lambda>t part. handleLine now part t) t parts) = sendChain t"
  by (induction parts arbitrary: t) (simp_all add: handleLine_cancelled)

lemma handleChunk_cancelled:
  "cancelled (sess t) \<Longrightarrow> sendChain (handleChunk now txt t) = sendChain t"
  by (simp add: handleChunk_def Let_def foldl_handleLine_cancelled split: prod.splits)

lemma onChunks_cancelled:
  "cancelled (sess t) \<Longrightarrow> sendChain (onChunks now texts t) = sendChain t"
  unfolding onChunks_def
  by (induction texts arbitrary: t) (simp_all add: handleChunk_cancelled)

lemma turn_step_cancelled:
  "cancelled (sess t) \<Longrightarrow>
   cancelled (sess (snd (turn_step now (c, t) ev)))
   \<and> sendChain (snd (turn_step now (c, t) ev)) = sendChain t"
  by (cases ev) (simp_all add: onChunks_cancelled cancel_session_def split: prod.splits)

lemma foldl_turn_step_cancelled:
  "cancelled (sess (snd ct)) \<Longrightarrow>
   cancelled (sess (snd (foldl (turn_step now) ct evs)))
   \<and> sendChain (snd (foldl (turn_step now) ct evs)) = sendChain (snd ct)"
proof (induction evs arbitrary: ct)
  case Nil
  then show ?case by simp
next
  case (Cons ev evs)
  obtain c t where ct: "ct = (c, t)" by (cases ct)
  from Cons.prems ct have "cancelled (sess t)" by simp
  from turn_step_cancelled [OF this, of now c ev] Cons.IH [of "turn_step now (c, t) ev"]
  show ?case unfolding ct by simp
qed

lemma on_close_cancelled:
  "cancelled (sess (snd ct)) \<Longrightarrow>
   cancelled (sess (snd (on_close now ct)))
   \<and> sendChain (snd (on_close now ct)) = sendChain (snd ct)"
  by (cases ct) (simp add: on_close_def Let_def onChunks_cancelled split: prod.splits)

lemma flush_line_cancelled:
  "cancelled (sess t) \<Longrightarrow>
   cancelled (sess (flush_line w t)) \<and> sendChain (flush_line w t) = sendChain t"
  by (simp add: flush_line_def Let_def handleLine_cancelled)

lemma close_tool_cancelled:
  "cancelled (sess t) \<Longrightarrow>
   cancelled (sess (close_tool w t)) \<and> sendChain (close_tool w t) = sendChain t"
  by (simp add: close_tool_def sendToolUpdate_def sendUpdate_def split: option.splits)

lemma finish_turn_cancelled:
  "cancelled (sess t) \<Longrightarrow> finish_turn w t = (Inr Cancelled, 
     (if cancel_in_drain w then cancel_session (sess t) else sess t), sendChain t)"
  by (simp add: finish_turn_def Let_def cancel_session_def)

lemma finish_turn_drain:
  "cancel_in_drain w \<Longrightarrow> finish_turn w t = (Inr Cancelled, cancel_session (sess t), sendChain t)"
  by (simp add: finish_turn_def Let_def cancel_session_def)

lemma syncKiroDefaultAgent_frame [simp]:
  "cancelled (syncKiroDefaultAgent z c s) = cancelled s"
  "currentModeId (syncKiroDefaultAgent z c s) = currentModeId s"
  "availableModes (syncKiroDefaultAgent z c s) = availableModes s"
  by (simp_all add: syncKiroDefaultAgent_def Let_def split: option.splits)

lemma entry_session_cancelled [simp]:
  "cancelled (entry_session w s) = cancel_in_preflight w"
  by (simp add: entry_session_def Let_def cancel_session_def)

lemma entry_session_preflightOk [simp]:
  "preflightOk (entry_session w s) = preflightOk s"
  by (simp add: entry_session_def Let_def cancel_session_def)

lemma start_turn_simps [simp]:
  "cancelled (sess (snd (start_turn w s))) = cancelled s"
  "sendChain (snd (start_turn w s)) = []"
  "sentAny (snd (start_turn w s)) = False"
  "toolSeq (snd (start_turn w s)) = 0"
  "activeTool (snd (start_turn w s)) = None"
  by (simp_all add: start_turn_def)

lemma launched_ready:
  "launched w s \<Longrightarrow> (if preflightOk (entry_session w s) then Ready else ready w) = Ready"
  by (auto simp: launched_def)

lemma prompt_session_launched:
  "launched w s \<Longrightarrow> prompt_session w params s = finish_turn w (closed_turn w s)"
  unfolding prompt_session_def Let_def by (simp only: launched_ready readiness.case)

lemma closed_turn_cancelled:
  assumes "cancelled (sess (snd (turn_after w s evs1)))" and "events w = evs1 @ evs2"
  shows "cancelled (sess (closed_turn w s))
    \<and> sendChain (closed_turn w s) = sendChain (snd (turn_after w s evs1))"
proof -
  have split: "turn_after w s (events w) = foldl (turn_step (clock w)) (turn_after w s evs1) evs2"
    unfolding turn_after_def assms(2) by simp
  note a = foldl_turn_step_cancelled [OF assms(1), of "clock w" evs2]
  note b = on_close_cancelled [of "foldl (turn_step (clock w)) (turn_after w s evs1) evs2" "clock w"]
  from a b have c: "cancelled (sess (snd (on_close (clock w) (turn_after w s (events w)))))
    \<and> sendChain (snd (on_close (clock w) (turn_after w s (events w))))
       = sendChain (snd (turn_after w s evs1))"
    unfolding split by simp
  from c flush_line_cancelled [of "snd (on_close (clock w) (turn_after w s (events w)))" w]
  have d: "cancelled (sess (flushed_turn w s))
    \<and> sendChain (flushed_turn w s) = sendChain (snd (turn_after w s evs1))"
    unfolding flushed_turn_def by simp
  from d close_tool_cancelled [of "flushed_turn w s" w]
  show ?thesis unfolding closed_turn_def by simp
qed

text \<open>The send chain of a turn that a cancel reaches.\<close>

lemma closed_turn_after_cancel:
  assumes "events w = before @ CancelNotification # after"
  shows "cancelled (sess (closed_turn w s))
    \<and> sendChain (closed_turn w s) = sendChain (snd (turn_after w s before))"
proof -
  obtain c t where ct: "turn_after w s before = (c, t)" by (cases "turn_after w s before")
  have step: "turn_after w s (before @ [CancelNotification]) = (c, t\<lparr>sess := cancel_session (sess t)\<rparr>)"
    unfolding turn_after_def using ct [unfolded turn_after_def] by simp
  have "cancelled (sess (snd (turn_after w s (before @ [CancelNotification]))))"
    unfolding step by (simp add: cancel_session_def)
  moreover have "events w = (before @ [CancelNotification]) @ after" using assms by simp
  ultimately have "cancelled (sess (closed_turn w s))
    \<and> sendChain (closed_turn w s) = sendChain (snd (turn_after w s (before @ [CancelNotification])))"
    by (rule closed_turn_cancelled)
  then show ?thesis unfolding step ct by simp
qed

lemma prompt_session_chain_after_cancel:
  assumes "launched w s" and "events w = before @ CancelNotification # after"
  shows "snd (snd (prompt_session w params s)) = sendChain (snd (turn_after w s before))"
  using closed_turn_after_cancel [OF assms(2), of s]
  by (simp add: prompt_session_launched [OF assms(1)] finish_turn_cancelled)

lemma preflight_cancel_chain:
  assumes "cancel_in_preflight w"
  shows "snd (snd (prompt_session w params s)) = []"
proof (cases "launched w s")
  case True
  have "cancelled (sess (snd (turn_after w s [])))"
    using assms by (simp add: turn_after_def)
  from closed_turn_cancelled [OF this, of "events w"]
  have "cancelled (sess (closed_turn w s))" "sendChain (closed_turn w s) = []"
    by (simp_all add: turn_after_def)
  then show ?thesis
    by (simp add: prompt_session_launched [OF True] finish_turn_cancelled)
next
  case False
  then obtain message where "\<not> preflightOk s" "ready w = NotReady message"
    by (cases "ready w") (auto simp: launched_def)
  then show ?thesis using assms
    by (simp add: prompt_session_def Let_def sendText_def sendUpdate_def)
qed

text \<open>
  C5. Once the cancellation flag is set, nothing more is enqueued on the send chain in
  that turn, whatever the subprocess still delivers and however it exits: the updates
  \<open>prompt\<close> leaves on the chain are those that were there when the cancel arrived.
  (A cancel before the launch leaves none; one among the deliveries leaves those
  enqueued by the deliveries before it; one that arrives while the chain is awaited
  leaves those of the closed turn.)
\<close>

theorem no_updates_after_cancel:
  "(cancel_in_preflight w \<longrightarrow> snd (snd (prompt_session w params s)) = [])
   \<and> (launched w s \<and> events w = before @ CancelNotification # after \<longrightarrow>
        snd (snd (prompt_session w params s)) = sendChain (snd (turn_after w s before)))
   \<and> (launched w s \<and> cancel_in_drain w \<longrightarrow>
        snd (snd (prompt_session w params s)) = sendChain (closed_turn w s))"
proof (intro conjI impI)
  assume "cancel_in_preflight w"
  then show "snd (snd (prompt_session w params s)) = []"
    by (rule preflight_cancel_chain)
next
  assume "launched w s \<and> events w = before @ CancelNotification # after"
  then show "snd (snd (prompt_session w params s)) = sendChain (snd (turn_after w s before))"
    by (simp add: prompt_session_chain_after_cancel)
next
  assume "launched w s \<and> cancel_in_drain w"
  then show "snd (snd (prompt_session w params s)) = sendChain (closed_turn w s)"
    by (simp add: prompt_session_launched finish_turn_drain)
qed

theorem no_updates_after_cancel_witness:
  "launched cancel_world example_session
   \<and> events cancel_world = cancel_events_before @ CancelNotification # cancel_events_after
   \<and> snd (snd (prompt_session cancel_world [] example_session))
       = [AgentMessageChunk (js ''hello'' @ [LF])]"
proof -
  have l: "launched cancel_world example_session"
    by (simp add: launched_def example_session_def)
  have e: "events cancel_world = cancel_events_before @ CancelNotification # cancel_events_after"
    by (simp add: cancel_world_def example_world_def)
  have c: "sendChain (snd (turn_after cancel_world example_session cancel_events_before))
      = [AgentMessageChunk (js ''hello'' @ [LF])]"
    by code_simp
  from no_updates_after_cancel [of cancel_world "[]" example_session cancel_events_before
      cancel_events_after] l e
  have "snd (snd (prompt_session cancel_world [] example_session))
      = sendChain (snd (turn_after cancel_world example_session cancel_events_before))"
    by blast
  with l e c show ?thesis by simp
qed

subsection \<open>Turns without a cancel\<close>

lemma turn_step_no_cancel:
  "ev \<noteq> CancelNotification \<Longrightarrow> sess (snd (turn_step now (c, t) ev)) = sess t"
  by (cases ev) (simp_all split: prod.splits)

lemma foldl_turn_step_no_cancel:
  "CancelNotification \<notin> set evs \<Longrightarrow>
   sess (snd (foldl (turn_step now) ct evs)) = sess (snd ct)"
proof (induction evs arbitrary: ct)
  case Nil
  then show ?case by simp
next
  case (Cons ev evs)
  obtain c t where ct: "ct = (c, t)" by (cases ct)
  from Cons.prems have "ev \<noteq> CancelNotification" "CancelNotification \<notin> set evs" by auto
  from turn_step_no_cancel [OF this(1), of now c t] Cons.IH [OF this(2), of "turn_step now (c, t) ev"]
  show ?case unfolding ct by simp
qed

lemma on_close_sess [simp]: "sess (snd (on_close now ct)) = sess (snd ct)"
  by (cases ct) (simp add: on_close_def Let_def split: prod.splits)

lemma flush_line_cancelled_iff [simp]:
  "cancelled (sess (flush_line w t)) = cancelled (sess t)"
  by (simp add: flush_line_def Let_def)

lemma close_tool_sess [simp]: "sess (close_tool w t) = sess t"
  by (simp add: close_tool_def)

lemma closed_turn_not_cancelled:
  "\<not> cancel_in_preflight w \<Longrightarrow> CancelNotification \<notin> set (events w) \<Longrightarrow>
   \<not> cancelled (sess (closed_turn w s))"
  by (simp add: closed_turn_def flushed_turn_def turn_after_def foldl_turn_step_no_cancel)

subsection \<open>\<open>sentAny\<close> and the send chain\<close>

lemma sent_inv_sendUpdate: "sent_inv t \<Longrightarrow> sent_inv (sendUpdate u t)"
  by (simp add: sent_inv_def sendUpdate_def)

lemma sent_inv_frame:
  "sent_inv (t\<lparr>activeTool := a\<rparr>) = sent_inv t" "sent_inv (t\<lparr>toolSeq := n\<rparr>) = sent_inv t"
  "sent_inv (t\<lparr>lineBuffer := b\<rparr>) = sent_inv t" "sent_inv (t\<lparr>sess := x\<rparr>) = sent_inv t"
  by (simp_all add: sent_inv_def)

lemma sent_inv_handleLine: "sent_inv t \<Longrightarrow> sent_inv (handleLine now line t)"
  by (simp add: handleLine_def Let_def sendText_def sendThought_def sendToolCall_def
      sendToolUpdate_def sent_inv_sendUpdate sent_inv_frame split: option.splits prod.splits)

lemma sent_inv_foldl_handleLine:
  "sent_inv t \<Longrightarrow> sent_inv (foldl (\<lambda>t part. handleLine now part t) t parts)"
  by (induction parts arbitrary: t) (simp_all add: sent_inv_handleLine)

lemma sent_inv_handleChunk: "sent_inv t \<Longrightarrow> sent_inv (handleChunk now txt t)"
  by (simp add: handleChunk_def Let_def sent_inv_foldl_handleLine sent_inv_frame split: prod.splits)

lemma sent_inv_onChunks: "sent_inv t \<Longrightarrow> sent_inv (onChunks now texts t)"
  unfolding onChunks_def by (induction texts arbitrary: t) (simp_all add: sent_inv_handleChunk)

lemma sent_inv_turn_step: "sent_inv t \<Longrightarrow> sent_inv (snd (turn_step now (c, t) ev))"
  by (cases ev) (simp_all add: sent_inv_onChunks sent_inv_frame split: prod.splits)

lemma sent_inv_foldl_turn_step:
  "sent_inv (snd ct) \<Longrightarrow> sent_inv (snd (foldl (turn_step now) ct evs))"
proof (induction evs arbitrary: ct)
  case Nil
  then show ?case by simp
next
  case (Cons ev evs)
  obtain c t where ct: "ct = (c, t)" by (cases ct)
  from Cons.prems ct have "sent_inv t" by simp
  from sent_inv_turn_step [OF this, of now c ev] Cons.IH [of "turn_step now (c, t) ev"]
  show ?case unfolding ct by simp
qed

lemma sent_inv_on_close: "sent_inv (snd ct) \<Longrightarrow> sent_inv (snd (on_close now ct))"
  by (cases ct) (simp add: on_close_def Let_def sent_inv_onChunks split: prod.splits)

lemma sent_inv_flush_line: "sent_inv t \<Longrightarrow> sent_inv (flush_line w t)"
  by (simp add: flush_line_def Let_def sent_inv_handleLine sent_inv_frame)

lemma sent_inv_close_tool: "sent_inv t \<Longrightarrow> sent_inv (close_tool w t)"
  by (simp add: close_tool_def sendToolUpdate_def sent_inv_sendUpdate sent_inv_frame
      split: option.splits)

lemma sent_inv_closed_turn: "sent_inv (closed_turn w s)"
proof -
  have "sent_inv (snd (start_turn w (entry_session w s)))"
    by (simp add: sent_inv_def)
  then have "sent_inv (snd (turn_after w s (events w)))"
    unfolding turn_after_def by (rule sent_inv_foldl_turn_step)
  then show ?thesis
    unfolding closed_turn_def flushed_turn_def
    by (intro sent_inv_close_tool sent_inv_flush_line sent_inv_on_close)
qed

subsection \<open>The exit code\<close>

lemma includes_text_mid: "includes_text (pre @ x @ post) x"
proof (induction pre)
  case Nil
  have p: "startsWith (x @ post) x" by (simp add: startsWith_def)
  show ?case
  proof (cases "x @ post")
    case Nil
    then show ?thesis by (simp add: includes_text_def)
  next
    case (Cons a l)
    with p have "startsWith (a # l) x" by simp
    then have "indexOf (a # l) x = Some 0" by simp
    with Cons show ?thesis by (simp add: includes_text_def)
  qed
next
  case (Cons c pre)
  then show ?case by (auto simp: includes_text_def)
qed

lemma error_message_includes_code:
  "includes_text (error_message (InternalError (js ''kiro-cli exited with code '' @ show_code code)))
     (show_code code)"
proof -
  have "error_message (InternalError (js ''kiro-cli exited with code '' @ show_code code))
      = (js ''Internal error'' @ js '': '' @ js ''kiro-cli exited with code '') @ show_code code @ []"
    by (simp add: js_def)
  then show ?thesis by (simp only: includes_text_mid)
qed

lemma exit_notice_includes_code: "includes_text (exit_notice code) (show_code code)"
proof -
  have "exit_notice code
      = ([LF] @ js ''(kiro-cli '' @ [0x9000, 0x51FA, 0x7801] @ js '': '') @ show_code code
        @ (js '')'' @ [LF])"
    by (simp add: exit_notice_def)
  then show ?thesis by (simp only: includes_text_mid)
qed

lemma closed_turn_cancelled_before_close:
  assumes "cancel_in_preflight w \<or> CancelNotification \<in> set (events w)"
  shows "cancelled (sess (closed_turn w s))"
proof (cases "cancel_in_preflight w")
  case True
  then have "cancelled (sess (snd (turn_after w s [])))" by (simp add: turn_after_def)
  from closed_turn_cancelled [OF this, of "events w"] show ?thesis by simp
next
  case False
  with assms obtain before after where e: "events w = before @ CancelNotification # after"
    by (auto dest: split_list)
  obtain c t where ct: "turn_after w s before = (c, t)" by (cases "turn_after w s before")
  have "turn_after w s (before @ [CancelNotification]) = (c, t\<lparr>sess := cancel_session (sess t)\<rparr>)"
    unfolding turn_after_def using ct [unfolded turn_after_def] by simp
  then have "cancelled (sess (snd (turn_after w s (before @ [CancelNotification]))))"
    by (simp add: cancel_session_def)
  moreover have "events w = (before @ [CancelNotification]) @ after" using e by simp
  ultimately show ?thesis using closed_turn_cancelled by blast
qed

text \<open>
  C6, as the code has it. The subprocess exits with a code other than 0, or with none.
  If no cancel has arrived when the send chain has been awaited: when no update was
  enqueued, \<open>prompt\<close> throws \<open>RequestError.internalError\<close> with the additional message
  \<open>kiro-cli exited with code\<close> followed by the code, so that the message of the error
  includes the code; when an update was enqueued, it enqueues the exit notice, which
  includes the code, behind the other updates and returns \<open>end_turn\<close>. If a cancel has
  arrived by then, \<open>prompt\<close> returns \<open>cancelled\<close>, throws nothing and appends no notice.
  (A cancel that arrives later, while the notice is awaited, changes none of this.)
\<close>

theorem nonzero_exit_outcome:
  assumes "launched w s" and "exit_code w \<noteq> Some 0"
  shows "(\<not> cancel_in_preflight w \<and> CancelNotification \<notin> set (events w) \<and> \<not> cancel_in_drain w \<longrightarrow>
           (sendChain (closed_turn w s) = [] \<longrightarrow>
              fst (prompt_session w params s)
                = Inl (InternalError (js ''kiro-cli exited with code '' @ show_code (exit_code w)))
              \<and> includes_text
                  (error_message
                     (InternalError (js ''kiro-cli exited with code '' @ show_code (exit_code w))))
                  (show_code (exit_code w)))
           \<and> (sendChain (closed_turn w s) \<noteq> [] \<longrightarrow>
                fst (prompt_session w params s) = Inr EndTurn
                \<and> snd (snd (prompt_session w params s))
                  = sendChain (closed_turn w s) @ [AgentMessageChunk (exit_notice (exit_code w))]
                \<and> includes_text (exit_notice (exit_code w)) (show_code (exit_code w))))
    \<and> (cancel_in_preflight w \<or> CancelNotification \<in> set (events w) \<or> cancel_in_drain w \<longrightarrow>
          fst (prompt_session w params s) = Inr Cancelled
          \<and> snd (snd (prompt_session w params s)) = sendChain (closed_turn w s))"
proof (intro conjI impI)
  assume n: "\<not> cancel_in_preflight w \<and> CancelNotification \<notin> set (events w) \<and> \<not> cancel_in_drain w"
  then have nc: "\<not> cancelled (sess (closed_turn w s))"
    by (simp add: closed_turn_not_cancelled)
  have sa: "sentAny (closed_turn w s) \<longleftrightarrow> sendChain (closed_turn w s) \<noteq> []"
    using sent_inv_closed_turn [of w s] by (simp add: sent_inv_def)
  {
    assume "sendChain (closed_turn w s) = []"
    then show "fst (prompt_session w params s)
        = Inl (InternalError (js ''kiro-cli exited with code '' @ show_code (exit_code w)))"
      unfolding prompt_session_launched [OF assms(1)]
      using nc sa assms(2) n by (simp add: finish_turn_def Let_def)
    show "includes_text
        (error_message (InternalError (js ''kiro-cli exited with code '' @ show_code (exit_code w))))
        (show_code (exit_code w))"
      by (rule error_message_includes_code)
  }
  {
    assume ne: "sendChain (closed_turn w s) \<noteq> []"
    show "fst (prompt_session w params s) = Inr EndTurn"
      unfolding prompt_session_launched [OF assms(1)]
      using nc sa assms(2) n ne by (simp add: finish_turn_def Let_def)
    show "snd (snd (prompt_session w params s))
        = sendChain (closed_turn w s) @ [AgentMessageChunk (exit_notice (exit_code w))]"
      unfolding prompt_session_launched [OF assms(1)]
      using nc sa assms(2) n ne
      by (simp add: finish_turn_def Let_def sendText_def sendUpdate_def)
    show "includes_text (exit_notice (exit_code w)) (show_code (exit_code w))"
      by (rule exit_notice_includes_code)
  }
next
  assume c: "cancel_in_preflight w \<or> CancelNotification \<in> set (events w) \<or> cancel_in_drain w"
  have "finish_turn w (closed_turn w s)
      = (Inr Cancelled, (if cancel_in_drain w then cancel_session (sess (closed_turn w s))
           else sess (closed_turn w s)), sendChain (closed_turn w s))"
  proof (cases "cancel_in_drain w")
    case True
    then show ?thesis by (simp add: finish_turn_drain)
  next
    case False
    with c have "cancelled (sess (closed_turn w s))"
      by (intro closed_turn_cancelled_before_close) simp
    then show ?thesis by (rule finish_turn_cancelled)
  qed
  then show "fst (prompt_session w params s) = Inr Cancelled"
    "snd (snd (prompt_session w params s)) = sendChain (closed_turn w s)"
    unfolding prompt_session_launched [OF assms(1)] by simp_all
qed

text \<open>A cancelled turn whose subprocess exits with code 2: \<open>prompt\<close> returns \<open>cancelled\<close>,
  with nothing sent and no error thrown, or with the text sent before the cancel and no
  notice.\<close>

theorem nonzero_exit_counterexample:
  "fst (prompt_session (example_world [CancelNotification] (Some 2)) [] example_session)
     = Inr Cancelled
   \<and> snd (snd (prompt_session (example_world [CancelNotification] (Some 2)) [] example_session))
     = []
   \<and> fst (prompt_session
        (example_world [StdoutData (js ''hi'' @ [LF]), CancelNotification] (Some 2)) []
        example_session) = Inr Cancelled
   \<and> snd (snd (prompt_session
        (example_world [StdoutData (js ''hi'' @ [LF]), CancelNotification] (Some 2)) []
        example_session)) = [AgentMessageChunk (js ''hi'' @ [LF])]"
  by code_simp

theorem nonzero_exit_outcome_witness:
  "launched (example_world [] (Some 2)) example_session
   \<and> exit_code (example_world [] (Some 2)) \<noteq> Some 0
   \<and> \<not> cancel_in_preflight (example_world [] (Some 2))
   \<and> CancelNotification \<notin> set (events (example_world [] (Some 2)))
   \<and> \<not> cancel_in_drain (example_world [] (Some 2))
   \<and> sendChain (closed_turn (example_world [] (Some 2)) example_session) = []
   \<and> fst (prompt_session (example_world [] (Some 2)) [] example_session)
       = Inl (InternalError (js ''kiro-cli exited with code 2''))
   \<and> error_message (InternalError (js ''kiro-cli exited with code 2''))
       = js ''Internal error: kiro-cli exited with code 2''
   \<and> includes_text (error_message (InternalError (js ''kiro-cli exited with code 2''))) (js ''2'')
   \<and> launched (example_world [CancelNotification] (Some 2)) example_session
   \<and> CancelNotification \<in> set (events (example_world [CancelNotification] (Some 2)))
   \<and> fst (prompt_session (example_world [CancelNotification] (Some 2)) [] example_session)
       = Inr Cancelled"
proof -
  have h: "launched (example_world [] (Some 2)) example_session"
    "exit_code (example_world [] (Some 2)) \<noteq> Some 0"
    "\<not> cancel_in_preflight (example_world [] (Some 2))"
    "CancelNotification \<notin> set (events (example_world [] (Some 2)))"
    "\<not> cancel_in_drain (example_world [] (Some 2))"
    by (simp_all add: launched_def example_session_def example_world_def)
  have c: "sendChain (closed_turn (example_world [] (Some 2)) example_session) = []"
    by code_simp
  have m: "show_code (exit_code (example_world [] (Some 2))) = js ''2''"
    "js ''kiro-cli exited with code '' @ js ''2'' = js ''kiro-cli exited with code 2''"
    "error_message (InternalError (js ''kiro-cli exited with code 2''))
      = js ''Internal error: kiro-cli exited with code 2''"
    by code_simp+
  note t = nonzero_exit_outcome [OF h(1,2), of "[]", unfolded m(1,2)]
  from t h c have r: "fst (prompt_session (example_world [] (Some 2)) [] example_session)
      = Inl (InternalError (js ''kiro-cli exited with code 2''))"
    "includes_text (error_message (InternalError (js ''kiro-cli exited with code 2''))) (js ''2'')"
    by blast+
  have g: "launched (example_world [CancelNotification] (Some 2)) example_session"
    "exit_code (example_world [CancelNotification] (Some 2)) \<noteq> Some 0"
    "CancelNotification \<in> set (events (example_world [CancelNotification] (Some 2)))"
    by (simp_all add: launched_def example_session_def example_world_def)
  from nonzero_exit_outcome [OF g(1,2), of "[]"] g(3)
  have x: "fst (prompt_session (example_world [CancelNotification] (Some 2)) [] example_session)
      = Inr Cancelled"
    by blast
  from h c r m(3) g(1,3) x show ?thesis by blast
qed

subsection \<open>The tool-call invariants\<close>

lemma updates_of_Nil [simp]: "updates_of i [] = []"
  by (simp add: updates_of_def)

lemma updates_of_snoc [simp]:
  "updates_of i (chain @ [u]) =
     (if update_id u = Some i then updates_of i chain @ [u] else updates_of i chain)"
  by (simp add: updates_of_def)

lemma nothing_after_terminal_Nil [simp]: "nothing_after_terminal i []"
  by (simp add: nothing_after_terminal_def)

lemma nothing_after_terminal_snoc:
  "nothing_after_terminal i (chain @ [u]) \<longleftrightarrow>
     (if update_id u = Some i then \<not> (\<exists>v\<in>set (updates_of i chain). is_terminal v)
      else nothing_after_terminal i chain)"
  by (simp add: nothing_after_terminal_def)

lemma opened_snoc:
  "opened i (chain @ [u]) \<longleftrightarrow> opened i chain \<or> (is_tool_call u \<and> update_id u = Some i)"
  by (auto simp: opened_def)

lemma opened_Nil [simp]: "\<not> opened i []"
  by (simp add: opened_def)

lemma ids_bounded_fresh:
  "ids_bounded now t \<Longrightarrow> toolSeq t < n \<Longrightarrow> updates_of (x, n) (sendChain t) = []"
  unfolding ids_bounded_def updates_of_def
  by (auto simp: filter_empty_conv)

text \<open>Appending an update that carries no id.\<close>

lemma turn_inv_plain:
  assumes "turn_inv now t" and "update_id u = None"
  shows "turn_inv now (sendUpdate u t)"
  using assms
  by (auto simp: turn_inv_def ids_bounded_def active_fresh_def sendUpdate_def
      nothing_after_terminal_snoc)

lemma open_inv_plain:
  assumes "open_inv t" and "update_id u = None"
  shows "open_inv (sendUpdate u t)"
proof -
  have "\<not> is_tool_call u" using assms(2) by (cases u) simp_all
  then show ?thesis using assms
    by (auto simp: open_inv_def sendUpdate_def opened_snoc)
qed

text \<open>An update of the open tool call that is not terminal.\<close>

lemma turn_inv_progress:
  assumes "turn_inv now t" and "activeTool t = Some tool"
  shows "turn_inv now (sendToolUpdate (Some InProgress)
           (t\<lparr>activeTool := Some (tool\<lparr>output_lines := ls\<rparr>)\<rparr>))"
  using assms
  by (auto simp: turn_inv_def ids_bounded_def active_fresh_def sendToolUpdate_def sendUpdate_def
      nothing_after_terminal_snoc)

lemma open_inv_progress:
  assumes "open_inv t" and "activeTool t = Some tool"
  shows "open_inv (sendToolUpdate (Some InProgress)
           (t\<lparr>activeTool := Some (tool\<lparr>output_lines := ls\<rparr>)\<rparr>))"
  using assms
  by (auto simp: open_inv_def sendToolUpdate_def sendUpdate_def opened_snoc)

text \<open>The terminal update of the open tool call, after which it is open no more.\<close>

lemma turn_inv_terminal:
  assumes "turn_inv now t"
  shows "turn_inv now ((sendToolUpdate st t)\<lparr>activeTool := None\<rparr>)"
  using assms
  by (auto simp: turn_inv_def ids_bounded_def active_fresh_def sendToolUpdate_def sendUpdate_def
      nothing_after_terminal_snoc split: option.splits)

lemma open_inv_terminal:
  assumes "open_inv t" and "st = Some Completed \<or> st = Some Failed"
  shows "open_inv ((sendToolUpdate st t)\<lparr>activeTool := None\<rparr>)"
  using assms
  by (auto simp: open_inv_def sendToolUpdate_def sendUpdate_def opened_snoc split: option.splits)
    blast+

text \<open>A new tool call.\<close>

lemma turn_inv_start:
  assumes "turn_inv now t" and "activeTool t = None" and "n = Suc (toolSeq t)"
  shows "turn_inv now (sendToolCall (t\<lparr>toolSeq := n,
      activeTool := Some \<lparr>tool_id = (now n, n), kind = k, title = ti, rawInput = raw,
        output_lines = []\<rparr>\<rparr>))"
proof -
  have fresh: "updates_of (now n, n) (sendChain t) = []"
    using assms by (auto simp: turn_inv_def intro: ids_bounded_fresh)
  show ?thesis
    using assms fresh
    by (auto simp: turn_inv_def ids_bounded_def active_fresh_def sendToolCall_def sendUpdate_def
        nothing_after_terminal_snoc)
qed

lemma open_inv_start:
  assumes "open_inv t" and "activeTool t = None"
  shows "open_inv (sendToolCall (t\<lparr>toolSeq := n,
      activeTool := Some \<lparr>tool_id = (now n, n), kind = k, title = ti, rawInput = raw,
        output_lines = []\<rparr>\<rparr>))"
  using assms
  by (auto simp: open_inv_def sendToolCall_def sendUpdate_def opened_snoc)

lemma inv_frame [simp]:
  "turn_inv now (t\<lparr>lineBuffer := b\<rparr>) = turn_inv now t"
  "open_inv (t\<lparr>lineBuffer := b\<rparr>) = open_inv t"
  by (simp_all add: turn_inv_def ids_bounded_def active_fresh_def open_inv_def)

lemma handleLine_inv:
  assumes "turn_inv now t" and "open_inv t"
  shows "turn_inv now (handleLine now line t) \<and> open_inv (handleLine now line t)"
proof (cases "toolStartRe line")
  case (Some g)
  obtain g1 g2 where g: "g = (g1, g2)" by (cases g)
  define t1 where "t1 = (if activeTool t \<noteq> None then sendToolUpdate (Some Completed) t else t)"
  have t1: "turn_inv now (t1\<lparr>activeTool := None\<rparr>)" "open_inv (t1\<lparr>activeTool := None\<rparr>)"
  proof -
    show "turn_inv now (t1\<lparr>activeTool := None\<rparr>)"
    proof (cases "activeTool t")
      case None
      then have "t1\<lparr>activeTool := None\<rparr> = t" by (simp add: t1_def)
      then show ?thesis using assms(1) by simp
    next
      case (Some a)
      then show ?thesis using turn_inv_terminal [OF assms(1), of "Some Completed"]
        by (simp add: t1_def)
    qed
    show "open_inv (t1\<lparr>activeTool := None\<rparr>)"
    proof (cases "activeTool t")
      case None
      then have "t1\<lparr>activeTool := None\<rparr> = t" by (simp add: t1_def)
      then show ?thesis using assms(2) by simp
    next
      case (Some a)
      then show ?thesis using open_inv_terminal [OF assms(2), of "Some Completed"]
        by (simp add: t1_def)
    qed
  qed
  have seq: "toolSeq t1 = toolSeq t" by (simp add: t1_def)
  define n where "n = Suc (toolSeq t1)"
  have upd: "\<And>tool. t1\<lparr>toolSeq := n, activeTool := Some tool\<rparr>
      = (t1\<lparr>activeTool := None\<rparr>)\<lparr>toolSeq := n, activeTool := Some tool\<rparr>"
    by simp
  have "handleLine now line t = sendToolCall (t1\<lparr>toolSeq := n,
      activeTool := Some \<lparr>tool_id = (now n, n),
        kind = (if trim g2 = js ''shell'' then Execute else Other),
        title = (if trim g2 \<noteq> [] then trim g2 @ js '': '' @ trim g1 else trim g1),
        rawInput = trim g1, output_lines = []\<rparr>\<rparr>)"
    unfolding handleLine_def Some g t1_def n_def by (simp add: Let_def)
  moreover have a: "activeTool (t1\<lparr>activeTool := None\<rparr>) = None" by simp
  moreover have b: "n = Suc (toolSeq (t1\<lparr>activeTool := None\<rparr>))" by (simp add: n_def)
  ultimately show ?thesis
    unfolding upd
    using turn_inv_start [OF t1(1) a b] open_inv_start [OF t1(2) a]
    by simp
next
  case None
  show ?thesis
  proof (cases "activeTool t")
    case (Some tool)
    then show ?thesis
      using None assms turn_inv_terminal [OF assms(1), of "Some Completed"]
        open_inv_terminal [OF assms(2), of "Some Completed"]
        turn_inv_progress [OF assms(1) Some] open_inv_progress [OF assms(2) Some]
      by (simp add: handleLine_def)
  next
    case no_tool: None
    then show ?thesis
      using None assms
      by (simp add: handleLine_def sendText_def sendThought_def turn_inv_plain open_inv_plain)
  qed
qed

lemma foldl_handleLine_inv:
  "turn_inv now t \<and> open_inv t \<Longrightarrow>
   turn_inv now (foldl (\<lambda>t part. handleLine now part t) t parts)
   \<and> open_inv (foldl (\<lambda>t part. handleLine now part t) t parts)"
proof (induction parts arbitrary: t)
  case Nil
  then show ?case by simp
next
  case (Cons part parts)
  from Cons.prems have "turn_inv now (handleLine now part t) \<and> open_inv (handleLine now part t)"
    by (simp add: handleLine_inv)
  from Cons.IH [OF this] show ?case by simp
qed

lemma handleChunk_inv:
  "turn_inv now t \<and> open_inv t \<Longrightarrow>
   turn_inv now (handleChunk now txt t) \<and> open_inv (handleChunk now txt t)"
proof -
  assume a: "turn_inv now t \<and> open_inv t"
  obtain popped parts where p: "pop (split_lines (lineBuffer t @ txt)) = (popped, parts)"
    by (cases "pop (split_lines (lineBuffer t @ txt))")
  from a have "turn_inv now (t\<lparr>lineBuffer := (case popped of Some p \<Rightarrow> p | None \<Rightarrow> [])\<rparr>)
    \<and> open_inv (t\<lparr>lineBuffer := (case popped of Some p \<Rightarrow> p | None \<Rightarrow> [])\<rparr>)"
    by simp
  from foldl_handleLine_inv [OF this, of parts] show ?thesis
    unfolding handleChunk_def Let_def p by simp
qed

lemma onChunks_inv:
  "turn_inv now t \<and> open_inv t \<Longrightarrow>
   turn_inv now (onChunks now texts t) \<and> open_inv (onChunks now texts t)"
  unfolding onChunks_def
proof (induction texts arbitrary: t)
  case Nil
  then show ?case by simp
next
  case (Cons x texts)
  from handleChunk_inv [OF Cons.prems] Cons.IH [of "handleChunk now x t"]
  show ?case by simp
qed

lemma turn_inv_sess [simp]: "turn_inv now (t\<lparr>sess := x\<rparr>) = turn_inv now t"
  by (simp add: turn_inv_def ids_bounded_def active_fresh_def)

lemma open_inv_cancel [simp]: "open_inv (t\<lparr>sess := cancel_session x\<rparr>)"
  by (simp add: open_inv_def cancel_session_def)

lemma turn_step_inv:
  "turn_inv now t \<and> open_inv t \<Longrightarrow>
   turn_inv now (snd (turn_step now (c, t) ev)) \<and> open_inv (snd (turn_step now (c, t) ev))"
  by (cases ev) (simp_all add: onChunks_inv split: prod.splits)

lemma foldl_turn_step_inv:
  "turn_inv now (snd ct) \<and> open_inv (snd ct) \<Longrightarrow>
   turn_inv now (snd (foldl (turn_step now) ct evs))
   \<and> open_inv (snd (foldl (turn_step now) ct evs))"
proof (induction evs arbitrary: ct)
  case Nil
  then show ?case by simp
next
  case (Cons ev evs)
  obtain c t where ct: "ct = (c, t)" by (cases ct)
  from Cons.prems ct have "turn_inv now t \<and> open_inv t" by simp
  from turn_step_inv [OF this, of c ev] Cons.IH [of "turn_step now (c, t) ev"]
  show ?case unfolding ct by simp
qed

lemma on_close_inv:
  "turn_inv now (snd ct) \<and> open_inv (snd ct) \<Longrightarrow>
   turn_inv now (snd (on_close now ct)) \<and> open_inv (snd (on_close now ct))"
proof -
  assume a: "turn_inv now (snd ct) \<and> open_inv (snd ct)"
  obtain c t where ct: "ct = (c, t)" by (cases ct)
  obtain x1 b1 where p1: "processChunk [] True (stdoutBuffer c) = (x1, b1)"
    by (cases "processChunk [] True (stdoutBuffer c)")
  obtain x2 b2 where p2: "processChunk [] True (stderrBuffer c) = (x2, b2)"
    by (cases "processChunk [] True (stderrBuffer c)")
  from a ct have "turn_inv now t \<and> open_inv t" by simp
  from onChunks_inv [OF onChunks_inv [OF this, of x1], of x2]
  show ?thesis unfolding ct on_close_def by (simp add: p1 p2)
qed

lemma inv_child [simp]:
  "turn_inv now (t\<lparr>sess := (sess t)\<lparr>child := b\<rparr>\<rparr>) = turn_inv now t"
  "open_inv (t\<lparr>sess := (sess t)\<lparr>child := b\<rparr>\<rparr>) = open_inv t"
  by (simp_all add: turn_inv_def ids_bounded_def active_fresh_def open_inv_def)

lemma flush_line_inv:
  "turn_inv (clock w) t \<and> open_inv t \<Longrightarrow>
   turn_inv (clock w) (flush_line w t) \<and> open_inv (flush_line w t)"
  unfolding flush_line_def Let_def
  using handleLine_inv [of "clock w" "t\<lparr>sess := (sess t)\<lparr>child := False\<rparr>\<rparr>"]
  by simp

lemma close_tool_inv:
  "turn_inv now t \<and> open_inv t \<Longrightarrow>
   turn_inv now (close_tool w t) \<and> open_inv (close_tool w t)"
  unfolding close_tool_def
  using turn_inv_terminal [of now t] open_inv_terminal [of t]
  by simp

lemma close_tool_no_active [simp]: "activeTool (close_tool w t) = None"
  by (simp add: close_tool_def)

lemma start_turn_inv:
  "turn_inv now (snd (start_turn w s)) \<and> open_inv (snd (start_turn w s))"
  by (simp add: start_turn_def turn_inv_def ids_bounded_def active_fresh_def open_inv_def)

lemma closed_turn_inv:
  "turn_inv (clock w) (closed_turn w s) \<and> open_inv (closed_turn w s)"
  unfolding closed_turn_def flushed_turn_def turn_after_def
  by (intro close_tool_inv flush_line_inv on_close_inv foldl_turn_step_inv start_turn_inv)

lemma closed_turn_nothing_after: "nothing_after_terminal i (sendChain (closed_turn w s))"
  using closed_turn_inv [of w s] unfolding turn_inv_def by blast

lemma closed_turn_no_active [simp]: "activeTool (closed_turn w s) = None"
  by (simp add: closed_turn_def)

text \<open>The send chain of a launched turn is that of the closed turn, with the exit
  notice behind it or not.\<close>

lemma prompt_session_chain:
  assumes "launched w s"
  shows "snd (snd (prompt_session w params s)) = sendChain (closed_turn w s)
    \<or> snd (snd (prompt_session w params s))
        = sendChain (closed_turn w s) @ [AgentMessageChunk (exit_notice (exit_code w))]"
  unfolding prompt_session_launched [OF assms]
  by (simp add: finish_turn_def Let_def sendText_def sendUpdate_def cancel_session_def)

lemma prompt_session_not_launched:
  assumes "\<not> launched w s"
  shows "snd (snd (prompt_session w params s)) = []
    \<or> (\<exists>message. snd (snd (prompt_session w params s)) = [AgentMessageChunk message])"
proof -
  from assms obtain message where "\<not> preflightOk s" "ready w = NotReady message"
    by (cases "ready w") (auto simp: launched_def)
  then show ?thesis
    by (simp add: prompt_session_def Let_def sendText_def sendUpdate_def)
qed

lemma nothing_after_terminal_plain:
  "update_id u = None \<Longrightarrow>
   nothing_after_terminal i (chain @ [u]) = nothing_after_terminal i chain"
  by (simp add: nothing_after_terminal_snoc)

lemma closed_once_plain:
  "update_id u = None \<Longrightarrow> closed_once i (chain @ [u]) = closed_once i chain"
  by (simp add: closed_once_def nothing_after_terminal_snoc)

lemma opened_plain: "update_id u = None \<Longrightarrow> opened i (chain @ [u]) = opened i chain"
  by (cases u) (simp_all add: opened_snoc)

lemma closed_onceI:
  assumes "nothing_after_terminal i chain" and "\<exists>u\<in>set (updates_of i chain). is_terminal u"
  shows "closed_once i chain"
proof -
  from assms(2) obtain u where u: "u \<in> set (updates_of i chain)" "is_terminal u" by blast
  then have ne: "updates_of i chain \<noteq> []" by auto
  then have "updates_of i chain = butlast (updates_of i chain) @ [last (updates_of i chain)]"
    by simp
  with u have "u \<in> set (butlast (updates_of i chain)) \<or> u = last (updates_of i chain)"
    by (metis Un_iff empty_iff insert_iff list.set(1) list.set(2) set_append)
  with assms(1) u(2) have "is_terminal (last (updates_of i chain))"
    by (auto simp: nothing_after_terminal_def)
  with ne assms(1) show ?thesis by (simp add: closed_once_def)
qed

lemma turn_after_inv:
  "turn_inv (clock w) (snd (turn_after w s evs)) \<and> open_inv (snd (turn_after w s evs))"
  unfolding turn_after_def by (intro foldl_turn_step_inv start_turn_inv)

lemma turn_after_not_cancelled:
  "\<not> cancel_in_preflight w \<Longrightarrow> CancelNotification \<notin> set evs \<Longrightarrow>
   \<not> cancelled (sess (snd (turn_after w s evs)))"
  by (simp add: turn_after_def foldl_turn_step_no_cancel)

lemma not_launched_not_opened:
  assumes "\<not> launched w s"
  shows "\<not> opened i (snd (snd (prompt_session w params s)))"
  using prompt_session_not_launched [OF assms, of params] by (auto simp: opened_def)

lemma not_launched_no_updates:
  assumes "\<not> launched w s"
  shows "updates_of i (snd (snd (prompt_session w params s))) = []"
  using prompt_session_not_launched [OF assms, of params] by (auto simp: updates_of_def)

text \<open>A tool call that is open when the first cancel arrives, and one that is not.\<close>

lemma cancelled_turn_open_tool:
  assumes "\<not> cancel_in_preflight w" and "events w = before @ CancelNotification # after"
    and "CancelNotification \<notin> set before"
    and "activeTool (snd (turn_after w s before)) = Some tool"
  shows "\<not> (\<exists>u\<in>set (updates_of (tool_id tool) (snd (snd (prompt_session w params s)))).
            is_terminal u)"
proof (cases "launched w s")
  case False
  then show ?thesis by (simp add: not_launched_no_updates)
next
  case True
  have ch: "snd (snd (prompt_session w params s)) = sendChain (snd (turn_after w s before))"
    using True assms(2) by (rule prompt_session_chain_after_cancel)
  from turn_after_inv [of w s before] assms(4) show ?thesis
    unfolding ch turn_inv_def active_fresh_def by metis
qed

lemma cancelled_turn_closed_tool:
  assumes "\<not> cancel_in_preflight w" and "events w = before @ CancelNotification # after"
    and "CancelNotification \<notin> set before"
    and "opened i (snd (snd (prompt_session w params s)))"
    and "\<forall>tool. activeTool (snd (turn_after w s before)) = Some tool \<longrightarrow> tool_id tool \<noteq> i"
  shows "closed_once i (snd (snd (prompt_session w params s)))"
proof (cases "launched w s")
  case False
  with assms(4) show ?thesis by (simp add: not_launched_not_opened)
next
  case True
  define tb where "tb = snd (turn_after w s before)"
  have ch: "snd (snd (prompt_session w params s)) = sendChain tb"
    unfolding tb_def using True assms(2) by (rule prompt_session_chain_after_cancel)
  have inv: "turn_inv (clock w) tb" "open_inv tb"
    unfolding tb_def using turn_after_inv [of w s before] by simp_all
  have nc: "\<not> cancelled (sess tb)"
    unfolding tb_def using assms(1,3) by (rule turn_after_not_cancelled)
  from assms(4) have "opened i (sendChain tb)" unfolding ch .
  with inv(2) nc assms(5) have "\<exists>u\<in>set (updates_of i (sendChain tb)). is_terminal u"
    unfolding open_inv_def tb_def by metis
  moreover from inv(1) have "nothing_after_terminal i (sendChain tb)"
    unfolding turn_inv_def by blast
  ultimately show ?thesis unfolding ch by (rule closed_onceI [rotated])
qed

text \<open>
  C4, as the code has it. In every turn, no update with a tool-call id follows a
  terminal update with that id, so each id has at most one terminal update. Every tool
  call that was opened has exactly one terminal update, the last update with its id,
  except the one that is open when a cancel arrives: if no cancel arrives before the
  subprocess has closed, all have it; if a cancel arrives among the deliveries, all have
  it but the tool call open at that moment, for which no terminal update is ever sent;
  after a cancel before the launch nothing is opened. A tool call that is still open
  when the subprocess has closed gets \<open>completed\<close> for exit code 0 and \<open>failed\<close> for any
  other or missing exit code.
\<close>

theorem tool_call_lifecycle:
  "(\<forall>i. nothing_after_terminal i (snd (snd (prompt_session w params s))))
   \<and> (\<not> cancel_in_preflight w \<and> CancelNotification \<notin> set (events w) \<longrightarrow>
        (\<forall>i. opened i (snd (snd (prompt_session w params s))) \<longrightarrow>
              closed_once i (snd (snd (prompt_session w params s)))))
   \<and> (\<not> cancel_in_preflight w \<and> events w = before @ CancelNotification # after
        \<and> CancelNotification \<notin> set before \<longrightarrow>
        (\<forall>i. opened i (snd (snd (prompt_session w params s)))
              \<and> (\<forall>tool. activeTool (snd (turn_after w s before)) = Some tool \<longrightarrow>
                     tool_id tool \<noteq> i) \<longrightarrow>
              closed_once i (snd (snd (prompt_session w params s))))
        \<and> (\<forall>tool. activeTool (snd (turn_after w s before)) = Some tool \<longrightarrow>
              \<not> (\<exists>u\<in>set (updates_of (tool_id tool) (snd (snd (prompt_session w params s)))).
                    is_terminal u)))
   \<and> (cancel_in_preflight w \<longrightarrow> (\<forall>i. \<not> opened i (snd (snd (prompt_session w params s)))))
   \<and> (\<forall>tool. activeTool (flushed_turn w s) = Some tool \<and> \<not> cancelled (sess (flushed_turn w s)) \<longrightarrow>
        sendChain (closed_turn w s)
          = sendChain (flushed_turn w s)
            @ [ToolCallUpdate (tool_id tool)
                 (Some (if exit_code w = Some 0 then Completed else Failed))
                 (toolContent tool) (toolContent tool)])"
proof (intro conjI allI impI)
  fix i
  show "nothing_after_terminal i (snd (snd (prompt_session w params s)))"
  proof (cases "launched w s")
    case True
    note closed_turn_nothing_after [of i w s]
    with prompt_session_chain [OF True, of params] show ?thesis
      by (auto simp: nothing_after_terminal_plain)
  next
    case False
    from prompt_session_not_launched [OF this, of params] show ?thesis
      by (auto simp: nothing_after_terminal_def updates_of_def)
  qed
next
  fix i
  assume nc: "\<not> cancel_in_preflight w \<and> CancelNotification \<notin> set (events w)"
    and op: "opened i (snd (snd (prompt_session w params s)))"
  show "closed_once i (snd (snd (prompt_session w params s)))"
  proof (cases "launched w s")
    case True
    have c: "\<not> cancelled (sess (closed_turn w s))"
      using nc by (simp add: closed_turn_not_cancelled)
    from op prompt_session_chain [OF True, of params]
    have "opened i (sendChain (closed_turn w s))"
      by (auto simp: opened_plain)
    moreover have "open_inv (closed_turn w s)" using closed_turn_inv [of w s] by blast
    moreover have "\<And>tool. activeTool (closed_turn w s) \<noteq> Some tool" by simp
    ultimately have "\<exists>u\<in>set (updates_of i (sendChain (closed_turn w s))). is_terminal u"
      using c unfolding open_inv_def by metis
    moreover note closed_turn_nothing_after [of i w s]
    ultimately have "closed_once i (sendChain (closed_turn w s))" by (rule closed_onceI [rotated])
    with prompt_session_chain [OF True, of params] show ?thesis
      by (auto simp: closed_once_plain)
  next
    case False
    then show ?thesis using op by (simp add: not_launched_not_opened)
  qed
next
  fix i
  assume "\<not> cancel_in_preflight w \<and> events w = before @ CancelNotification # after
      \<and> CancelNotification \<notin> set before"
    and "opened i (snd (snd (prompt_session w params s)))
      \<and> (\<forall>tool. activeTool (snd (turn_after w s before)) = Some tool \<longrightarrow> tool_id tool \<noteq> i)"
  then show "closed_once i (snd (snd (prompt_session w params s)))"
    by (intro cancelled_turn_closed_tool [of w before after]) simp_all
next
  fix tool
  assume "\<not> cancel_in_preflight w \<and> events w = before @ CancelNotification # after
      \<and> CancelNotification \<notin> set before"
    and "activeTool (snd (turn_after w s before)) = Some tool"
  then show "\<not> (\<exists>u\<in>set (updates_of (tool_id tool) (snd (snd (prompt_session w params s)))).
      is_terminal u)"
    by (intro cancelled_turn_open_tool [of w before after]) simp_all
next
  fix i
  assume "cancel_in_preflight w"
  then show "\<not> opened i (snd (snd (prompt_session w params s)))"
    by (simp add: preflight_cancel_chain)
next
  fix tool
  assume "activeTool (flushed_turn w s) = Some tool \<and> \<not> cancelled (sess (flushed_turn w s))"
  then show "sendChain (closed_turn w s)
      = sendChain (flushed_turn w s)
        @ [ToolCallUpdate (tool_id tool)
             (Some (if exit_code w = Some 0 then Completed else Failed))
             (toolContent tool) (toolContent tool)]"
    by (simp add: closed_turn_def close_tool_def sendToolUpdate_def sendUpdate_def)
qed

text \<open>A tool call is announced and the turn is cancelled: the \<open>tool_call\<close> start is
  the only update with its id, and no terminal update is ever sent for it.\<close>

theorem tool_call_lifecycle_counterexample:
  "opened (1700000000000, 1)
     (snd (snd (prompt_session
        (example_world [StdoutData (line_tool_start @ [LF]), CancelNotification] None) []
        example_session)))
   \<and> updates_of (1700000000000, 1)
     (snd (snd (prompt_session
        (example_world [StdoutData (line_tool_start @ [LF]), CancelNotification] None) []
        example_session)))
     = [ToolCall (1700000000000, 1) (js ''shell: ls'') Execute InProgress (js ''ls'')]
   \<and> \<not> closed_once (1700000000000, 1)
     (snd (snd (prompt_session
        (example_world [StdoutData (line_tool_start @ [LF]), CancelNotification] None) []
        example_session)))"
  by code_simp

theorem tool_call_lifecycle_witness:
  "\<not> cancel_in_preflight (example_world scenario_events (Some 0))
   \<and> CancelNotification \<notin> set (events (example_world scenario_events (Some 0)))
   \<and> opened (1700000000000, 1)
        (snd (snd (prompt_session (example_world scenario_events (Some 0)) [] example_session)))
   \<and> closed_once (1700000000000, 1)
        (snd (snd (prompt_session (example_world scenario_events (Some 0)) [] example_session)))
   \<and> nothing_after_terminal (1700000000000, 1)
        (snd (snd (prompt_session (example_world scenario_events (Some 0)) [] example_session)))
   \<and> \<not> cancel_in_preflight two_tools_world
   \<and> events two_tools_world
       = two_tools_before @ CancelNotification # [StdoutData (line_completed @ [LF])]
   \<and> CancelNotification \<notin> set two_tools_before
   \<and> opened (1700000000000, 1) (snd (snd (prompt_session two_tools_world [] example_session)))
   \<and> closed_once (1700000000000, 1) (snd (snd (prompt_session two_tools_world [] example_session)))
   \<and> opened (1700000000000, 2) (snd (snd (prompt_session two_tools_world [] example_session)))
   \<and> \<not> (\<exists>u\<in>set (updates_of (1700000000000, 2)
               (snd (snd (prompt_session two_tools_world [] example_session)))). is_terminal u)"
proof -
  have h: "\<not> cancel_in_preflight (example_world scenario_events (Some 0))"
    "CancelNotification \<notin> set (events (example_world scenario_events (Some 0)))"
    by (simp_all add: example_world_def scenario_events_def)
  have o: "opened (1700000000000, 1)
      (snd (snd (prompt_session (example_world scenario_events (Some 0)) [] example_session)))"
    by code_simp
  note t = tool_call_lifecycle [of "example_world scenario_events (Some 0)" "[]" example_session]
  from t h o have c1: "closed_once (1700000000000, 1)
      (snd (snd (prompt_session (example_world scenario_events (Some 0)) [] example_session)))"
    by blast
  from t have n1: "nothing_after_terminal (1700000000000, 1)
      (snd (snd (prompt_session (example_world scenario_events (Some 0)) [] example_session)))"
    by blast
  have k: "\<not> cancel_in_preflight two_tools_world"
    "events two_tools_world
       = two_tools_before @ CancelNotification # [StdoutData (line_completed @ [LF])]"
    "CancelNotification \<notin> set two_tools_before"
    by (simp_all add: two_tools_world_def example_world_def two_tools_before_def)
  have ch: "snd (snd (prompt_session two_tools_world [] example_session))
      = [ToolCall (1700000000000, 1) (js ''shell: ls'') Execute InProgress (js ''ls''),
         ToolCallUpdate (1700000000000, 1) (Some Completed) None None,
         ToolCall (1700000000000, 2) (js ''shell: ls'') Execute InProgress (js ''ls'')]"
    by code_simp
  have op: "opened (1700000000000, 1) (snd (snd (prompt_session two_tools_world [] example_session)))"
    "opened (1700000000000, 2) (snd (snd (prompt_session two_tools_world [] example_session)))"
    unfolding ch by (simp_all add: opened_def)
  have a: "map_option tool_id (activeTool (snd (turn_after two_tools_world example_session
      two_tools_before))) = Some (1700000000000, 2)"
    by code_simp
  then obtain tool where tool: "activeTool (snd (turn_after two_tools_world example_session
      two_tools_before)) = Some tool" "tool_id tool = (1700000000000, 2)"
    by auto
  then have other: "\<forall>tool. activeTool (snd (turn_after two_tools_world example_session
      two_tools_before)) = Some tool \<longrightarrow> tool_id tool \<noteq> (1700000000000, 1)"
    by simp
  note t2 = tool_call_lifecycle [of two_tools_world "[]" example_session two_tools_before
      "[StdoutData (line_completed @ [LF])]"]
  from t2 k op(1) other
  have c2: "closed_once (1700000000000, 1)
      (snd (snd (prompt_session two_tools_world [] example_session)))"
    by blast
  from t2 k tool(1)
  have "\<not> (\<exists>u\<in>set (updates_of (tool_id tool)
      (snd (snd (prompt_session two_tools_world [] example_session)))). is_terminal u)"
    by blast
  then have c3: "\<not> (\<exists>u\<in>set (updates_of (1700000000000, 2)
      (snd (snd (prompt_session two_tools_world [] example_session)))). is_terminal u)"
    unfolding tool(2) .
  from h o c1 n1 k op c2 c3 show ?thesis by blast
qed

section \<open>Properties of the handlers and the registry\<close>

text \<open>
  C7. For a session of the registry and a mode id that none of its available modes
  has, \<open>setSessionMode\<close> throws \<open>Invalid mode\<close> and leaves the agent, with the session
  and its current mode, as it was, and sends no notification; likewise
  \<open>setSessionModel\<close> with a model id that none of the available models has throws
  \<open>Invalid model\<close> and changes nothing.
\<close>

theorem unknown_mode_or_model_is_rejected:
  assumes "sessions a sessionId = Some s"
  shows "((\<forall>m\<in>set (availableModes s). mode_id m \<noteq> modeId) \<longrightarrow>
            setSessionMode zed code notify sessionId modeId a = (Inl (Error (js ''Invalid mode'')), a))
    \<and> ((\<forall>m\<in>set (availableModels s). modelId m \<noteq> model) \<longrightarrow>
            setSessionModel sessionId model a = (Inl (Error (js ''Invalid model'')), a))"
  using assms by (auto simp: setSessionMode_def setSessionModel_def)

theorem unknown_mode_or_model_is_rejected_witness:
  "sessions example_agent (js ''s1'') = Some example_session
   \<and> setSessionMode None None None (js ''s1'') (js ''nope'') example_agent
       = (Inl (Error (js ''Invalid mode'')), example_agent)
   \<and> setSessionModel (js ''s1'') (js ''gpt'') example_agent
       = (Inl (Error (js ''Invalid model'')), example_agent)"
proof -
  have s: "sessions example_agent (js ''s1'') = Some example_session"
    by (simp add: example_agent_def)
  have m: "\<forall>m\<in>set (availableModes example_session). mode_id m \<noteq> js ''nope''"
    by (simp add: example_session_def js_def)
  have n: "\<forall>m\<in>set (availableModels example_session). modelId m \<noteq> js ''gpt''"
    by (simp add: example_session_def availableModels0_def js_def)
  from unknown_mode_or_model_is_rejected [OF s, of "js ''nope''" None None None "js ''gpt''"] m n s
  show ?thesis by blast
qed

lemma newSession_session:
  "snd (fst (newSession sessionId env agents defaultAgent zed dir a))
     = the (sessions (snd (newSession sessionId env agents defaultAgent zed dir a)) sessionId)"
  by (simp add: newSession_def Let_def)



lemma js_default_nonempty: "js ''default'' \<noteq> []"
  by (simp add: js_def)





lemma modes_listed_client [simp]: "modes_listed (a\<lparr>client := c\<rparr>) = modes_listed a"
  by (simp add: modes_listed_def)












end
